theory Spec2Isabelle
  imports Main "HOL-Library.Sublist"
begin

section \<open>Strings\<close>

text \<open>
  A Python \<^verbatim>\<open>str\<close> is a sequence of Unicode code points and \<^verbatim>\<open>len\<close> counts code
  points, not bytes.  A string is therefore modelled as a list of code points; the 8-bit
  type \<^typ>\<open>char\<close> would make \<^const>\<open>length\<close> count UTF-8 bytes, which the program
  never does.
\<close>

type_synonym str = "nat list"

abbreviation (input) LF :: nat where "LF \<equiv> 10"
abbreviation (input) CR :: nat where "CR \<equiv> 13"

text \<open>ASCII literals, written as HOL strings.\<close>

definition ascii :: "string \<Rightarrow> str" where
  "ascii cs = map of_char cs"

text \<open>
  \<^verbatim>\<open>s.replace(old, new)\<close> for a non-empty \<^verbatim>\<open>old\<close>: the text is scanned from the left,
  and every occurrence found is replaced and skipped (occurrences do not overlap).
\<close>

fun py_replace :: "str \<Rightarrow> str \<Rightarrow> str \<Rightarrow> str" where
  "py_replace old new [] = []"
| "py_replace old new (c # cs) =
     (if prefix old (c # cs) then new @ py_replace old new (drop (length old - 1) cs)
      else c # py_replace old new cs)"

text \<open>
  \<^verbatim>\<open>s.split(sep)\<close> for a non-empty \<^verbatim>\<open>sep\<close>, as a scan from the left: \<open>piece\<close> is the
  part of the current field read so far.  The result always has at least one field.
\<close>

fun split_from :: "str \<Rightarrow> str \<Rightarrow> str \<Rightarrow> str list" where
  "split_from sep piece [] = [piece]"
| "split_from sep piece (c # cs) =
     (if prefix sep (c # cs) then piece # split_from sep [] (drop (length sep - 1) cs)
      else split_from sep (piece @ [c]) cs)"

definition py_split :: "str \<Rightarrow> str \<Rightarrow> str list" where
  "py_split sep s = split_from sep [] s"

text \<open>
  The number of bytes of the UTF-8 encoding of a string; the program reads and writes all
  its files with \<^verbatim>\<open>encoding="utf-8"\<close>.
\<close>

definition utf8_len :: "nat \<Rightarrow> nat" where
  "utf8_len c = (if c < 128 then 1 else if c < 2048 then 2 else if c < 65536 then 3 else 4)"

definition byte_length :: "str \<Rightarrow> nat" where
  "byte_length s = sum_list (map utf8_len s)"

section \<open>The chunker\<close>

text \<open>
  \<^verbatim>\<open>chunk_text\<close>, lines 160-173.  The loop state is \<open>(chunks, cur, tot)\<close> (\<open>tot\<close> is the source's \<^verbatim>\<open>total\<close>); one step
  is the body of \<^verbatim>\<open>for block in s.split("\n\n")\<close>.
\<close>

fun chunk_loop :: "int \<Rightarrow> str list \<Rightarrow> str list \<Rightarrow> str list \<Rightarrow> int \<Rightarrow> str list \<times> str list \<times> int" where
  "chunk_loop max_chars [] chunks cur tot = (chunks, cur, tot)"
| "chunk_loop max_chars (b # bs) chunks cur tot =
     (let block = b @ [LF, LF];
          (chunks', cur', tot') =
             (if cur \<noteq> [] \<and> tot + int (length block) > max_chars
              then (chunks @ [concat cur], [], 0)
              else (chunks, cur, tot))
      in chunk_loop max_chars bs chunks' (cur' @ [block]) (tot' + int (length block)))"

definition chunk_text :: "str \<Rightarrow> int \<Rightarrow> str list" where
  "chunk_text s max_chars =
     (let s' = py_replace [CR, LF] [LF] s;
          (chunks, cur, tot) = chunk_loop max_chars (py_split [LF, LF] s') [] [] 0
      in if cur \<noteq> [] then chunks @ [concat cur] else chunks)"

text \<open>
  The same loop with every closed chunk kept as the list of blocks it was joined from
  (\<open>cur\<close> itself instead of \<^verbatim>\<open>"".join(cur)\<close>): the grouping of the blocks into chunks.
\<close>

fun group_loop :: "int \<Rightarrow> str list \<Rightarrow> str list list \<Rightarrow> str list \<Rightarrow> int \<Rightarrow> str list list \<times> str list \<times> int" where
  "group_loop max_chars [] groups cur tot = (groups, cur, tot)"
| "group_loop max_chars (b # bs) groups cur tot =
     (let block = b @ [LF, LF];
          (groups', cur', tot') =
             (if cur \<noteq> [] \<and> tot + int (length block) > max_chars
              then (groups @ [cur], [], 0)
              else (groups, cur, tot))
      in group_loop max_chars bs groups' (cur' @ [block]) (tot' + int (length block)))"

definition chunk_groups :: "str \<Rightarrow> int \<Rightarrow> str list list" where
  "chunk_groups s max_chars =
     (let s' = py_replace [CR, LF] [LF] s;
          (groups, cur, tot) = group_loop max_chars (py_split [LF, LF] s') [] [] 0
      in if cur \<noteq> [] then groups @ [cur] else groups)"

text \<open>
  A group of blocks respects the budget: it is not empty, and when its joined length
  (in characters, as \<^verbatim>\<open>len\<close> counts) exceeds the budget it holds one block only.
\<close>

definition group_ok :: "int \<Rightarrow> str list \<Rightarrow> bool" where
  "group_ok B g \<longleftrightarrow> g \<noteq> [] \<and> (B < int (length (concat g)) \<longrightarrow> length g = 1)"



section \<open>More string functions\<close>

text \<open>\<^verbatim>\<open>sep.join(xs)\<close>.\<close>

fun py_join :: "str \<Rightarrow> str list \<Rightarrow> str" where
  "py_join sep [] = []"
| "py_join sep [x] = x"
| "py_join sep (x # y # ys) = x @ sep @ py_join sep (y # ys)"

text \<open>
  \<^verbatim>\<open>s.strip()\<close> removes the leading and trailing characters for which
  \<^verbatim>\<open>str.isspace\<close> holds.
\<close>

definition py_isspace :: "nat \<Rightarrow> bool" where
  "py_isspace c \<longleftrightarrow>
     (9 \<le> c \<and> c \<le> 13) \<or> (28 \<le> c \<and> c \<le> 32) \<or> c = 133 \<or> c = 160 \<or> c = 5760 \<or>
     (8192 \<le> c \<and> c \<le> 8202) \<or> c = 8232 \<or> c = 8233 \<or> c = 8239 \<or> c = 8287 \<or> c = 12288"

definition py_strip :: "str \<Rightarrow> str" where
  "py_strip s = rev (dropWhile py_isspace (rev (dropWhile py_isspace s)))"

text \<open>\<^verbatim>\<open>str(n)\<close> for a natural number: its decimal digits.\<close>

fun str_of_nat :: "nat \<Rightarrow> str" where
  "str_of_nat n = (if n < 10 then [48 + n] else str_of_nat (n div 10) @ [48 + n mod 10])"

section \<open>Settings\<close>

definition USER :: str where "USER = ascii ''financialjuice''"
definition HOURS_BACK :: int where "HOURS_BACK = 24"
definition OUT_TXT :: str where "OUT_TXT = ascii ''financialjuice_last_hours.txt''"
definition MAX_SCROLLS :: nat where "MAX_SCROLLS = 80"
definition SCROLL_WAIT_MS :: nat where "SCROLL_WAIT_MS = 1600"
definition COOKIES_FILE :: str where "COOKIES_FILE = ascii ''x_cookies.json''"
definition MODEL_NAME :: str where "MODEL_NAME = ascii ''gemini-1.5-flash''"

definition CUSTOM_PROMPT :: str where
  "CUSTOM_PROMPT =
     ascii '' Summarieze the following headlines into a concise Daily Macro & Markets Recap.'' @ [LF] @
     ascii ''    Divide the summary into clear sections by region and country, using headings and bullet points.'' @ [LF] @
     ascii ''    Group very very related news toghether and keep only the most relevant news for financial markets.'' @ [LF] @
     ascii ''    Keep the summary within 2 pages maximum, and max 5 bullet points per country.'' @ [LF] @
     ascii ''    Use the following sections, but remove those without relevant news:'' @ [LF] @
     ascii ''    1. Euro Area (Germany, France, Italy, Spain, Greece, Portugal, Belgium, Netherlands, Austria, Ireland, Finland)'' @ [LF] @
     ascii ''    2. Nordics (Sweden, Norway, Denmark, not Switzerland)'' @ [LF] @
     ascii ''    3. United Kingdom'' @ [LF] @
     ascii ''    4. Switzerland'' @ [LF] @
     ascii ''    5. North America (only United States and Canada)'' @ [LF] @
     ascii ''    6. APAC (only China, Japan, Australia, and New Zealand)'' @ [LF] @
     ascii ''    Make a subsection for each country for sections including many countries, and keep max 5 bullet points per country.'' @ [LF] @
     ascii ''    Use a headline line for each country (e.g., United States '' @ [8211] @
     ascii '' Housing soft, Fed bias tilts dovish).'' @ [LF] @
     ascii ''    Divide every section with a horizontal line (---).''"

section \<open>Errors, effects and the outside world\<close>

text \<open>The exceptions the program raises or lets through, with their messages.\<close>

datatype error =
    ValueError str
  | TypeError str
  | RuntimeError str
  | FileNotFoundError str

text \<open>
  The requests the program sends to its collaborators (the browser, the file system, the
  generation service), in the order it sends them.  Console output (\<^verbatim>\<open>print\<close>) is not
  recorded.
\<close>

datatype event =
    BrowserLaunch
  | ReadFile str
  | WriteFile str str
  | Goto str
  | ClickButton str
  | QueryArticles
  | MouseWheel
  | WaitTimeout nat
  | BrowserClose
  | GenerateContent "str list"

text \<open>
  The part of the world the program reads and changes: the environment variable
  \<^verbatim>\<open>GOOGLE_API_KEY\<close>, the files (the decoded text of each; written text is stored as it
  is, as on a system whose line separator is \<^verbatim>\<open>"\n"\<close>), the key the generation client
  was configured with, and the log of requests.
\<close>

record world =
  getenv_key :: "str option"
  files :: "str \<Rightarrow> str option"
  genai_key :: "str option"
  io_log :: "event list"

definition emit :: "event list \<Rightarrow> world \<Rightarrow> world" where
  "emit es w = w\<lparr>io_log := io_log w @ es\<rparr>"

section \<open>The collector\<close>

text \<open>
  What \<^verbatim>\<open>datetime.fromisoformat\<close> returns: an aware datetime, given by its instant in
  microseconds since the epoch, or a naive one.  The function itself belongs to the Python
  library; it is a parameter \<open>fromiso\<close> of the model, with \<open>None\<close> for the
  \<^verbatim>\<open>ValueError\<close> it raises on a string it cannot parse.
\<close>

datatype pydatetime = Aware int | Naive int

type_synonym parser = "str \<Rightarrow> pydatetime option"

text \<open>
  A rendered \<^verbatim>\<open>article\<close> element, as the loop body reads it: the status link
  (\<open>None\<close>: no such element; \<open>Some None\<close>: the element has no \<^verbatim>\<open>href\<close>), the
  \<^verbatim>\<open>time\<close> element and its \<^verbatim>\<open>datetime\<close> attribute (likewise), and the inner texts of
  the \<^verbatim>\<open>tweetText\<close> nodes.
\<close>

record article =
  link_href :: "str option option"
  time_datetime :: "str option option"
  tweet_text :: "str list"

text \<open>
  A row \<^verbatim>\<open>{"time": dt.astimezone(tz), "text": text}\<close>.  The conversion to the output time
  zone keeps the instant, and \<^verbatim>\<open>isoformat()\<close> of datetimes of one zone (local time with
  UTC offset, to the microsecond) is one-to-one on instants; so the time is kept as the
  instant.
\<close>

record row =
  r_time :: int
  r_text :: str

text \<open>
  All rows carry the same \<^verbatim>\<open>tzinfo\<close> object (\<^verbatim>\<open>tz\<close> of line 72), and Python compares
  two aware datetimes with the same \<^verbatim>\<open>tzinfo\<close> by their local date and time, ignoring the
  offset and the fold.  \<open>utcoffset\<close> stands for the zone: the offset from UTC, in
  microseconds, that holds at an instant; the local wall-clock reading of an instant is the
  instant plus that offset.
\<close>

definition wall_clock :: "(int \<Rightarrow> int) \<Rightarrow> int \<Rightarrow> int" where
  "wall_clock utcoffset t = t + utcoffset t"

text \<open>Lines 122-123: the text of an article.\<close>

definition article_text :: "article \<Rightarrow> str" where
  "article_text a = (if tweet_text a \<noteq> [] then py_strip (py_join [LF] (tweet_text a)) else [])"

text \<open>
  Lines 102-126, \<^verbatim>\<open>for a in arts\<close>: each \<^verbatim>\<open>continue\<close> is the recursive call on the
  remaining articles with the state unchanged.  A string that does not parse raises
  \<^verbatim>\<open>ValueError\<close> at line 118; a naive datetime raises \<^verbatim>\<open>TypeError\<close> in the comparison
  with the aware cutoff at line 119.  Neither is caught.
\<close>

fun scan_articles :: "parser \<Rightarrow> int \<Rightarrow> article list \<Rightarrow> row list \<Rightarrow> str set \<Rightarrow> error + row list \<times> str set" where
  "scan_articles fromiso cutoff [] rows seen = Inr (rows, seen)"
| "scan_articles fromiso cutoff (a # arts) rows seen =
     (case link_href a of
        None \<Rightarrow> scan_articles fromiso cutoff arts rows seen
      | Some None \<Rightarrow> scan_articles fromiso cutoff arts rows seen
      | Some (Some href) \<Rightarrow>
          if href = [] \<or> href \<in> seen then scan_articles fromiso cutoff arts rows seen
          else
            (case time_datetime a of
               None \<Rightarrow> scan_articles fromiso cutoff arts rows seen
             | Some None \<Rightarrow> scan_articles fromiso cutoff arts rows seen
             | Some (Some dt_str) \<Rightarrow>
                 if dt_str = [] then scan_articles fromiso cutoff arts rows seen
                 else
                   (case fromiso (py_replace (ascii ''Z'') (ascii ''+00:00'') dt_str) of
                      None \<Rightarrow> Inl (ValueError (ascii ''Invalid isoformat string''))
                    | Some (Naive t) \<Rightarrow>
                        Inl (TypeError (ascii ''can'' @ [39] @ ascii ''t compare offset-naive and offset-aware datetimes''))
                    | Some (Aware dt) \<Rightarrow>
                        if dt < cutoff then scan_articles fromiso cutoff arts rows seen
                        else scan_articles fromiso cutoff arts
                               (rows @ [\<lparr>r_time = dt, r_text = article_text a\<rparr>])
                               (insert href seen))))"

text \<open>
  Lines 100-129, \<^verbatim>\<open>for _ in range(MAX_SCROLLS)\<close>: \<open>snaps\<close> holds, for each remaining
  iteration, the articles that \<^verbatim>\<open>query_selector_all\<close> returns in it.
\<close>

fun scroll_loop :: "parser \<Rightarrow> int \<Rightarrow> article list list \<Rightarrow> row list \<Rightarrow> str set \<Rightarrow> world \<Rightarrow>
    (error + row list \<times> str set) \<times> world" where
  "scroll_loop fromiso cutoff [] rows seen w = (Inr (rows, seen), w)"
| "scroll_loop fromiso cutoff (arts # snaps) rows seen w =
     (case scan_articles fromiso cutoff arts rows seen of
        Inl e \<Rightarrow> (Inl e, emit [QueryArticles] w)
      | Inr (rows', seen') \<Rightarrow>
          scroll_loop fromiso cutoff snaps rows' seen'
            (emit [QueryArticles, MouseWheel, WaitTimeout SCROLL_WAIT_MS] w))"

text \<open>
  Line 134: a dictionary keeps its keys in the order of their first insertion; assigning to
  a key that is present replaces the value in place.
\<close>

fun dict_set :: "('k \<times> 'v) list \<Rightarrow> 'k \<Rightarrow> 'v \<Rightarrow> ('k \<times> 'v) list" where
  "dict_set [] k v = [(k, v)]"
| "dict_set ((k', v') # d) k v = (if k' = k then (k', v) # d else (k', v') # dict_set d k v)"

definition dedupe :: "row list \<Rightarrow> row list" where
  "dedupe rows = map snd (foldl (\<lambda>d r. dict_set d (r_time r, r_text r) r) [] rows)"

text \<open>
  Lines 70-136.  \<open>page i\<close> is what the timeline shows in iteration \<open>i\<close>, \<open>now\<close> the
  instant \<^verbatim>\<open>datetime.now(timezone.utc)\<close>, \<open>utcoffset\<close> the output zone.  The sort of line
  135 compares the times of the rows, that is, their wall-clock readings; it is stable,
  also with \<^verbatim>\<open>reverse=True\<close>.  The browser's own failures (no network, timeouts) are
  outside the model.
\<close>

definition scrape_last_hours :: "parser \<Rightarrow> (int \<Rightarrow> int) \<Rightarrow> (nat \<Rightarrow> article list) \<Rightarrow> int \<Rightarrow> str \<Rightarrow> int \<Rightarrow>
    world \<Rightarrow> (error + row list) \<times> world" where
  "scrape_last_hours fromiso utcoffset page now user hours_back w =
     (let cutoff = now - hours_back * 3600000000;
          w1 = emit [BrowserLaunch] w;
          w2 = (if files w1 COOKIES_FILE \<noteq> None then emit [ReadFile COOKIES_FILE] w1 else w1);
          w3 = emit [Goto (ascii ''https://x.com/'' @ user)] w2;
          w4 = emit [ClickButton (ascii ''Accept''), ClickButton (ascii ''I agree''),
                     ClickButton (ascii ''Allow all'')] w3
      in case scroll_loop fromiso cutoff (map page [0..<MAX_SCROLLS]) [] {} w4 of
           (Inl e, w5) \<Rightarrow> (Inl e, w5)
         | (Inr (rows, seen), w5) \<Rightarrow>
             (Inr (sort_key (\<lambda>r. - wall_clock utcoffset (r_time r)) (dedupe rows)),
              emit [BrowserClose] w5))"

text \<open>
  Lines 139-142.  \<open>strftime\<close> stands for \<^verbatim>\<open>strftime('%Y-%m-%d %H:%M:%S %Z')\<close> of the
  Python library.
\<close>

definition save_tweets_txt :: "(int \<Rightarrow> str) \<Rightarrow> row list \<Rightarrow> str \<Rightarrow> world \<Rightarrow> world" where
  "save_tweets_txt strftime rows path w =
     (let content = concat (map (\<lambda>r. strftime (r_time r) @ ascii '' | '' @ r_text r @ [LF, LF]) rows)
      in emit [WriteFile path content] (w\<lparr>files := (files w)(path \<mapsto> content)\<rparr>))"

section \<open>Summarization\<close>

text \<open>Lines 148-152.\<close>

definition require_gemini :: "world \<Rightarrow> (error + unit) \<times> world" where
  "require_gemini w =
     (case getenv_key w of
        None \<Rightarrow> (Inl (RuntimeError (ascii ''Missing GOOGLE_API_KEY environment variable.'')), w)
      | Some key \<Rightarrow>
          if key = [] then (Inl (RuntimeError (ascii ''Missing GOOGLE_API_KEY environment variable.'')), w)
          else (Inr (), w\<lparr>genai_key := Some key\<rparr>))"

text \<open>
  Lines 155-157.  A file opened for reading in text mode translates line endings: the read
  returns \<^verbatim>\<open>"\n"\<close> for every CR LF and for every other CR of the file.
\<close>

fun universal_newlines :: "str \<Rightarrow> str" where
  "universal_newlines [] = []"
| "universal_newlines [c] = (if c = CR then [LF] else [c])"
| "universal_newlines (c # d # cs) =
     (if c = CR \<and> d = LF then LF # universal_newlines cs
      else if c = CR then LF # universal_newlines (d # cs)
      else c # universal_newlines (d # cs))"

definition load_tweets :: "str \<Rightarrow> world \<Rightarrow> (error + str) \<times> world" where
  "load_tweets path w =
     (case files w path of
        None \<Rightarrow> (Inl (FileNotFoundError path), w)
      | Some content \<Rightarrow> (Inr (py_strip (universal_newlines content)), emit [ReadFile path] w))"

text \<open>
  Lines 176-188.  \<open>gen\<close> is the generation service: the \<^verbatim>\<open>text\<close> of the response to the
  given contents, \<open>None\<close> when it has none.  \<open>i\<close> counts from 1, \<open>n\<close> is
  \<^verbatim>\<open>len(chunks)\<close>.
\<close>

definition or_empty :: "str option \<Rightarrow> str" where
  "or_empty t = (case t of None \<Rightarrow> [] | Some s \<Rightarrow> s)"

definition system_instruction :: str where
  "system_instruction = ascii ''Follow the user'' @ [8217] @
     ascii ''s instructions exactly. Do not add extra sections beyond what they ask.''"

definition chunk_prompt :: "str \<Rightarrow> nat \<Rightarrow> nat \<Rightarrow> str \<Rightarrow> str" where
  "chunk_prompt custom_prompt i n ch =
     custom_prompt @ [LF, LF] @ ascii ''CHUNK '' @ str_of_nat i @ ascii ''/'' @ str_of_nat n @
     ascii '' '' @ [8212] @ ascii '' TWEETS START'' @ [LF] @ ascii ''<<<'' @ [LF] @ ch @ [LF] @
     ascii ''>>>'' @ [LF] @ ascii ''Return a '' @ [39] @
     ascii ''generatconcise markdown summary (headings + bullet points).''"

fun summarize_loop :: "(str list \<Rightarrow> str option) \<Rightarrow> str \<Rightarrow> nat \<Rightarrow> nat \<Rightarrow> str list \<Rightarrow> str list \<Rightarrow> world \<Rightarrow>
    str list \<times> world" where
  "summarize_loop gen custom_prompt n i [] outputs w = (outputs, w)"
| "summarize_loop gen custom_prompt n i (ch # chs) outputs w =
     summarize_loop gen custom_prompt n (Suc i) chs
       (outputs @ [py_strip (or_empty (gen [system_instruction, chunk_prompt custom_prompt i n ch]))])
       (emit [GenerateContent [system_instruction, chunk_prompt custom_prompt i n ch]] w)"

definition summarize_chunks :: "(str list \<Rightarrow> str option) \<Rightarrow> str list \<Rightarrow> str \<Rightarrow> str \<Rightarrow> world \<Rightarrow>
    str list \<times> world" where
  "summarize_chunks gen chunks custom_prompt model_name w =
     summarize_loop gen custom_prompt (length chunks) 1 chunks [] w"

text \<open>
  Lines 191-202.  The prompt is passed alone; it is recorded as a list of one content.
\<close>

definition final_synthesis :: "(str list \<Rightarrow> str option) \<Rightarrow> str list \<Rightarrow> str \<Rightarrow> str \<Rightarrow> world \<Rightarrow> str \<times> world" where
  "final_synthesis gen per_chunk custom_prompt model_name w =
     (let joined = py_join ([LF, LF] @ ascii ''--- CHUNK SPLIT ---'' @ [LF, LF]) per_chunk;
          prompt = custom_prompt @ [LF, LF] @
            ascii ''You are given partial summaries of tweet batches. '' @
            ascii ''Merge them into ONE well-structured Markdown document following the exact instructions above.'' @
            [LF, LF] @ ascii ''PARTIAL SUMMARIES START'' @ [LF] @ ascii ''<<<'' @ [LF] @ joined @
            [LF] @ ascii ''>>>'' @ [LF] @ ascii ''Return ONLY the final markdown.''
      in (py_strip (or_empty (gen [prompt])), emit [GenerateContent [prompt]] w))"

text \<open>Lines 205-222.\<close>

definition summarize_tweets_to_md :: "(str list \<Rightarrow> str option) \<Rightarrow> str \<Rightarrow> str \<Rightarrow> str \<Rightarrow> str \<Rightarrow> int \<Rightarrow> world \<Rightarrow>
    (error + str \<times> nat \<times> nat) \<times> world" where
  "summarize_tweets_to_md gen tweets_path output_md custom_prompt model_name max_chars_per_chunk w =
     (case require_gemini w of
        (Inl e, w1) \<Rightarrow> (Inl e, w1)
      | (Inr u, w1) \<Rightarrow>
          (case load_tweets tweets_path w1 of
             (Inl e, w2) \<Rightarrow> (Inl e, w2)
           | (Inr raw, w2) \<Rightarrow>
               if raw = [] then (Inl (ValueError (ascii ''Tweet file is empty: '' @ tweets_path)), w2)
               else
                 (let chunks = chunk_text raw max_chars_per_chunk;
                      (per_chunk, w3) = summarize_chunks gen chunks custom_prompt model_name w2;
                      (md, w4) = final_synthesis gen per_chunk custom_prompt model_name w3;
                      w5 = emit [WriteFile output_md md] (w4\<lparr>files := (files w4)(output_md \<mapsto> md)\<rparr>)
                  in (Inr (output_md, length raw, length chunks), w5))))"

section \<open>The entry point\<close>

text \<open>Lines 228-244.\<close>

definition main :: "parser \<Rightarrow> (int \<Rightarrow> int) \<Rightarrow> (nat \<Rightarrow> article list) \<Rightarrow> int \<Rightarrow> (int \<Rightarrow> str) \<Rightarrow>
    (str list \<Rightarrow> str option) \<Rightarrow> world \<Rightarrow> (error + unit) \<times> world" where
  "main fromiso utcoffset page now strftime gen w =
     (case scrape_last_hours fromiso utcoffset page now USER HOURS_BACK w of
        (Inl e, w1) \<Rightarrow> (Inl e, w1)
      | (Inr rows, w1) \<Rightarrow>
          (case summarize_tweets_to_md gen OUT_TXT (ascii ''summary.md'') CUSTOM_PROMPT MODEL_NAME 15000
                  (save_tweets_txt strftime rows OUT_TXT w1) of
             (Inl e, w2) \<Rightarrow> (Inl e, w2)
           | (Inr r, w2) \<Rightarrow> (Inr (), w2)))"

section \<open>Notions used in the statements about the collector\<close>

text \<open>
  The instant of a rendered item: defined when the item has a non-empty status link and a
  non-empty \<^verbatim>\<open>datetime\<close> attribute that parses to an aware datetime.
\<close>

definition item_instant :: "parser \<Rightarrow> article \<Rightarrow> int option" where
  "item_instant fromiso a =
     (case link_href a of
        Some (Some href) \<Rightarrow>
          if href = [] then None
          else (case time_datetime a of
                  Some (Some dt_str) \<Rightarrow>
                    if dt_str = [] then None
                    else (case fromiso (py_replace (ascii ''Z'') (ascii ''+00:00'') dt_str) of
                            Some (Aware t) \<Rightarrow> Some t
                          | _ \<Rightarrow> None)
                | _ \<Rightarrow> None)
      | _ \<Rightarrow> None)"

text \<open>All articles the timeline shows during the \<^verbatim>\<open>MAX_SCROLLS\<close> iterations of a run.\<close>

definition shown :: "(nat \<Rightarrow> article list) \<Rightarrow> article set" where
  "shown page = set (concat (map page [0..<MAX_SCROLLS]))"

text \<open>
  The status link identifies the item: two rendered articles with the same (non-empty)
  link carry the same timestamp attribute and the same text nodes (the same item seen
  again).  Articles without a link are not constrained.
\<close>

definition href_stable :: "article set \<Rightarrow> bool" where
  "href_stable A \<longleftrightarrow>
     (\<forall>a\<in>A. \<forall>b\<in>A. \<forall>h. h \<noteq> [] \<and> link_href a = Some (Some h) \<and> link_href b = Some (Some h) \<longrightarrow>
        time_datetime a = time_datetime b \<and> tweet_text a = tweet_text b)"

text \<open>
  Auxiliary notions of the proofs: the articles of a set that lie in the window, the row
  and the link of such an article, and the step of a first-occurrence filter.
\<close>

definition kept :: "parser \<Rightarrow> int \<Rightarrow> article set \<Rightarrow> article set" where
  "kept f c P = {a \<in> P. \<exists>t. item_instant f a = Some t \<and> c \<le> t}"

definition row_of :: "parser \<Rightarrow> article \<Rightarrow> row" where
  "row_of f a = \<lparr>r_time = the (item_instant f a), r_text = article_text a\<rparr>"

definition href_of :: "article \<Rightarrow> str" where
  "href_of a = the (the (link_href a))"

definition add_new :: "'a list \<Rightarrow> 'a \<Rightarrow> 'a list" where
  "add_new acc r = (if r \<in> set acc then acc else acc @ [r])"

section \<open>A sample timeline\<close>

text \<open>
  Three posts, one advertisement without a status link, and one post whose timestamp
  attribute is not a date.  \<open>sample_fromiso\<close> gives the values of
  \<^verbatim>\<open>datetime.fromisoformat\<close> on the strings that occur; the run is taken at
  2024-01-01 12:00:00 UTC, so that the second post lies exactly on the 24 hour cutoff.
\<close>

definition sample_fromiso :: parser where
  "sample_fromiso s =
     (if s = ascii ''2024-01-01T10:00:00.000+00:00'' then Some (Aware 1704103200000000)
      else if s = ascii ''2023-12-31T12:00:00.000+00:00'' then Some (Aware 1704024000000000)
      else if s = ascii ''2023-12-31T11:59:59.000+00:00'' then Some (Aware 1704023999000000)
      else if s = ascii ''2023-10-29T00:45:00.000+00:00'' then Some (Aware 1698540300000000)
      else if s = ascii ''2023-10-29T01:15:00.000+00:00'' then Some (Aware 1698542100000000)
      else None)"

text \<open>
  The offset of \<^verbatim>\<open>Europe/Zurich\<close> between 2023-03-26 and 2024-03-31: two hours until summer
  time ends at 2023-10-29 01:00:00 UTC, one hour after.
\<close>

definition zurich_offset :: "int \<Rightarrow> int" where
  "zurich_offset t = (if t < 1698541200000000 then 7200000000 else 3600000000)"

definition tweet_a :: article where
  "tweet_a = \<lparr>link_href = Some (Some (ascii ''/financialjuice/status/101'')),
     time_datetime = Some (Some (ascii ''2024-01-01T10:00:00.000Z'')),
     tweet_text = [ascii ''Headline A'']\<rparr>"

definition tweet_b :: article where
  "tweet_b = \<lparr>link_href = Some (Some (ascii ''/financialjuice/status/102'')),
     time_datetime = Some (Some (ascii ''2023-12-31T12:00:00.000Z'')),
     tweet_text = [ascii ''Headline B'']\<rparr>"

definition tweet_c :: article where
  "tweet_c = \<lparr>link_href = Some (Some (ascii ''/financialjuice/status/103'')),
     time_datetime = Some (Some (ascii ''2023-12-31T11:59:59.000Z'')),
     tweet_text = [ascii ''Headline C'']\<rparr>"

definition tweet_bad :: article where
  "tweet_bad = \<lparr>link_href = Some (Some (ascii ''/financialjuice/status/104'')),
     time_datetime = Some (Some (ascii ''yesterday'')),
     tweet_text = [ascii ''Headline D'']\<rparr>"

definition promo :: article where
  "promo = \<lparr>link_href = None, time_datetime = None, tweet_text = []\<rparr>"

definition sample_page :: "nat \<Rightarrow> article list" where
  "sample_page i = (if i = 0 then [tweet_a, promo, tweet_c] else if i = 1 then [tweet_b, tweet_a] else [])"

definition bad_page :: "nat \<Rightarrow> article list" where
  "bad_page i = (if i = 0 then [tweet_a, tweet_bad, tweet_b] else [])"

text \<open>
  Two posts of the night in which summer time ends: one at 00:45:00 UTC (02:45 local, still
  summer time) and one half an hour later at 01:15:00 UTC (02:15 local).
\<close>

definition tweet_early :: article where
  "tweet_early = \<lparr>link_href = Some (Some (ascii ''/financialjuice/status/201'')),
     time_datetime = Some (Some (ascii ''2023-10-29T00:45:00.000Z'')),
     tweet_text = [ascii ''Headline E'']\<rparr>"

definition tweet_late :: article where
  "tweet_late = \<lparr>link_href = Some (Some (ascii ''/financialjuice/status/202'')),
     time_datetime = Some (Some (ascii ''2023-10-29T01:15:00.000Z'')),
     tweet_text = [ascii ''Headline F'']\<rparr>"

definition dst_page :: "nat \<Rightarrow> article list" where
  "dst_page i = (if i = 0 then [tweet_late, tweet_early] else [])"

definition sample_world :: world where
  "sample_world = \<lparr>getenv_key = None, files = (\<lambda>p. None), genai_key = None, io_log = []\<rparr>"



text \<open>
  The formatted times of the sample rows in the output zone, and a world for the
  summarization with a credential and a corpus file of white space.
\<close>

definition sample_strftime :: "int \<Rightarrow> str" where
  "sample_strftime t =
     (if t = 1704103200000000 then ascii ''2024-01-01 11:00:00 CET''
      else if t = 1704024000000000 then ascii ''2023-12-31 13:00:00 CET''
      else [])"

definition blank_corpus_world :: world where
  "blank_corpus_world =
     \<lparr>getenv_key = Some (ascii ''k''),
      files = (\<lambda>p. if p = OUT_TXT then Some [32, LF] else None),
      genai_key = None, io_log = []\<rparr>"

section \<open>Requests to the generation service\<close>

fun is_generate :: "event \<Rightarrow> bool" where
  "is_generate (GenerateContent ps) = True"
| "is_generate e = False"

section \<open>Properties of the string functions and of the chunker loop\<close>

lemma drop_sep: "sep \<noteq> [] \<Longrightarrow> prefix sep (c # cs) \<Longrightarrow> c # cs = sep @ drop (length sep - 1) cs"
  by (cases sep) (auto simp: prefix_def)

lemma split_from_concat:
  "sep \<noteq> [] \<Longrightarrow> concat (map (\<lambda>b. b @ sep) (split_from sep piece s)) = piece @ s @ sep"
proof (induction sep piece s rule: split_from.induct)
  case (1 sep piece)
  then show ?case by simp
next
  case (2 sep piece c cs)
  show ?case
  proof (cases "prefix sep (c # cs)")
    case True
    with 2 have ih: "concat (map (\<lambda>b. b @ sep) (split_from sep [] (drop (length sep - 1) cs)))
        = drop (length sep - 1) cs @ sep" by simp
    have eq: "c # cs = sep @ drop (length sep - 1) cs"
      using drop_sep[OF "2.prems" True] .
    have "concat (map (\<lambda>b. b @ sep) (split_from sep piece (c # cs))) =
        (piece @ sep) @ concat (map (\<lambda>b. b @ sep) (split_from sep [] (drop (length sep - 1) cs)))"
      using True by simp
    also have "\<dots> = piece @ (sep @ drop (length sep - 1) cs) @ sep"
      unfolding ih by simp
    finally show ?thesis unfolding eq[symmetric] .
  next
    case False
    with 2 show ?thesis by simp
  qed
qed

lemma split_from_nonempty: "split_from sep piece s \<noteq> []"
  by (induction sep piece s rule: split_from.induct) auto

lemma chunk_loop_flush:
  "cur \<noteq> [] \<Longrightarrow> B < tot + int (length (b @ [LF, LF])) \<Longrightarrow>
   chunk_loop B (b # bs) chunks cur tot =
     chunk_loop B bs (chunks @ [concat cur]) [b @ [LF, LF]] (int (length (b @ [LF, LF])))"
  by (simp add: Let_def)

lemma chunk_loop_keep:
  "\<not> (cur \<noteq> [] \<and> B < tot + int (length (b @ [LF, LF]))) \<Longrightarrow>
   chunk_loop B (b # bs) chunks cur tot =
     chunk_loop B bs chunks (cur @ [b @ [LF, LF]]) (tot + int (length (b @ [LF, LF])))"
  by (auto simp: Let_def)

lemma group_loop_flush:
  "cur \<noteq> [] \<Longrightarrow> B < tot + int (length (b @ [LF, LF])) \<Longrightarrow>
   group_loop B (b # bs) groups cur tot =
     group_loop B bs (groups @ [cur]) [b @ [LF, LF]] (int (length (b @ [LF, LF])))"
  by (simp add: Let_def)

lemma group_loop_keep:
  "\<not> (cur \<noteq> [] \<and> B < tot + int (length (b @ [LF, LF]))) \<Longrightarrow>
   group_loop B (b # bs) groups cur tot =
     group_loop B bs groups (cur @ [b @ [LF, LF]]) (tot + int (length (b @ [LF, LF])))"
  by (auto simp: Let_def)

lemma chunk_loop_groups:
  "chunk_loop B bs (map concat gs) cur tot =
     (case group_loop B bs gs cur tot of (G, C, T) \<Rightarrow> (map concat G, C, T))"
proof (induction bs arbitrary: gs cur tot)
  case Nil
  then show ?case by simp
next
  case (Cons b bs)
  show ?case
  proof (cases "cur \<noteq> [] \<and> B < tot + int (length (b @ [LF, LF]))")
    case True
    then show ?thesis
      using Cons.IH[of "gs @ [cur]"]
      by (simp add: chunk_loop_flush group_loop_flush del: chunk_loop.simps group_loop.simps)
  next
    case False
    then show ?thesis
      using Cons.IH[of gs]
      by (simp add: chunk_loop_keep group_loop_keep del: chunk_loop.simps group_loop.simps)
  qed
qed

lemma group_loop_concat:
  "group_loop B bs gs cur tot = (G, C, T) \<Longrightarrow>
     concat G @ C = concat gs @ cur @ map (\<lambda>b. b @ [LF, LF]) bs"
proof (induction bs arbitrary: gs cur tot)
  case Nil
  then show ?case by simp
next
  case (Cons b bs)
  show ?case
  proof (cases "cur \<noteq> [] \<and> B < tot + int (length (b @ [LF, LF]))")
    case True
    with Cons.prems have "group_loop B bs (gs @ [cur]) [b @ [LF, LF]] (int (length (b @ [LF, LF]))) = (G, C, T)"
      by (simp add: group_loop_flush del: group_loop.simps)
    from Cons.IH[OF this] show ?thesis by simp
  next
    case False
    with Cons.prems have "group_loop B bs gs (cur @ [b @ [LF, LF]]) (tot + int (length (b @ [LF, LF]))) = (G, C, T)"
      by (simp add: group_loop_keep del: group_loop.simps)
    from Cons.IH[OF this] show ?thesis by simp
  qed
qed

lemma group_loop_cur_nonempty:
  "group_loop B bs gs cur tot = (G, C, T) \<Longrightarrow> bs \<noteq> [] \<or> cur \<noteq> [] \<Longrightarrow> C \<noteq> []"
proof (induction bs arbitrary: gs cur tot)
  case Nil
  then show ?case by simp
next
  case (Cons b bs)
  show ?case
  proof (cases "cur \<noteq> [] \<and> B < tot + int (length (b @ [LF, LF]))")
    case True
    with Cons.prems have "group_loop B bs (gs @ [cur]) [b @ [LF, LF]] (int (length (b @ [LF, LF]))) = (G, C, T)"
      by (simp add: group_loop_flush del: group_loop.simps)
    from Cons.IH[OF this] show ?thesis by simp
  next
    case False
    with Cons.prems have "group_loop B bs gs (cur @ [b @ [LF, LF]]) (tot + int (length (b @ [LF, LF]))) = (G, C, T)"
      by (simp add: group_loop_keep del: group_loop.simps)
    from Cons.IH[OF this] show ?thesis by simp
  qed
qed

lemma group_loop_inv:
  "group_loop B bs gs cur tot = (G, C, T) \<Longrightarrow>
   tot = int (length (concat cur)) \<Longrightarrow> (\<forall>g\<in>set gs. group_ok B g) \<Longrightarrow>
   (B < tot \<longrightarrow> length cur \<le> 1) \<Longrightarrow>
   T = int (length (concat C)) \<and> (\<forall>g\<in>set G. group_ok B g) \<and> (B < T \<longrightarrow> length C \<le> 1)"
proof (induction bs arbitrary: gs cur tot)
  case Nil
  then show ?case by auto
next
  case (Cons b bs)
  show ?case
  proof (cases "cur \<noteq> [] \<and> B < tot + int (length (b @ [LF, LF]))")
    case True
    with Cons.prems(1) have run: "group_loop B bs (gs @ [cur]) [b @ [LF, LF]] (int (length (b @ [LF, LF]))) = (G, C, T)"
      by (simp add: group_loop_flush del: group_loop.simps)
    have "group_ok B cur" using True Cons.prems(2,4) by (cases cur) (auto simp: group_ok_def Suc_le_eq)
    with Cons.prems(3) have "\<forall>g\<in>set (gs @ [cur]). group_ok B g" by simp
    from Cons.IH[OF run _ this] show ?thesis by simp
  next
    case False
    with Cons.prems(1) have run: "group_loop B bs gs (cur @ [b @ [LF, LF]]) (tot + int (length (b @ [LF, LF]))) = (G, C, T)"
      by (simp add: group_loop_keep del: group_loop.simps)
    have a: "tot + int (length (b @ [LF, LF])) = int (length (concat (cur @ [b @ [LF, LF]])))"
      using Cons.prems(2) by simp
    have b: "B < tot + int (length (b @ [LF, LF])) \<longrightarrow> length (cur @ [b @ [LF, LF]]) \<le> 1"
      using False by auto
    from Cons.IH[OF run a Cons.prems(3) b] show ?thesis .
  qed
qed

lemma chunk_loop_mono:
  "chunk_loop B1 bs cs1 cur1 tot1 = (c1, u1, t1) \<Longrightarrow>
   chunk_loop B2 bs cs2 cur2 tot2 = (c2, u2, t2) \<Longrightarrow>
   B1 \<le> B2 \<Longrightarrow> (cur1 = [] \<longleftrightarrow> cur2 = []) \<Longrightarrow> 0 \<le> tot1 \<Longrightarrow>
   length cs2 < length cs1 \<or> (length cs2 = length cs1 \<and> tot2 \<le> tot1) \<Longrightarrow>
   (u1 = [] \<longleftrightarrow> u2 = []) \<and> (length c2 < length c1 \<or> (length c2 = length c1 \<and> t2 \<le> t1))"
proof (induction bs arbitrary: cs1 cur1 tot1 cs2 cur2 tot2)
  case Nil
  then show ?case by auto
next
  case (Cons b bs)
  let ?blk = "b @ [LF, LF]"
  let ?n = "int (length ?blk)"
  define f1 where "f1 \<longleftrightarrow> cur1 \<noteq> [] \<and> B1 < tot1 + ?n"
  define f2 where "f2 \<longleftrightarrow> cur2 \<noteq> [] \<and> B2 < tot2 + ?n"
  define cs1' where "cs1' = (if f1 then cs1 @ [concat cur1] else cs1)"
  define cur1' where "cur1' = (if f1 then [?blk] else cur1 @ [?blk])"
  define tot1' where "tot1' = (if f1 then ?n else tot1 + ?n)"
  define cs2' where "cs2' = (if f2 then cs2 @ [concat cur2] else cs2)"
  define cur2' where "cur2' = (if f2 then [?blk] else cur2 @ [?blk])"
  define tot2' where "tot2' = (if f2 then ?n else tot2 + ?n)"
  have r1: "chunk_loop B1 bs cs1' cur1' tot1' = (c1, u1, t1)"
  proof (cases f1)
    case True
    then have c: "cur1 \<noteq> []" "B1 < tot1 + ?n" by (simp_all add: f1_def)
    from Cons.prems(1) have "chunk_loop B1 bs (cs1 @ [concat cur1]) [?blk] ?n = (c1, u1, t1)"
      unfolding chunk_loop_flush[OF c] .
    with True show ?thesis by (simp add: cs1'_def cur1'_def tot1'_def)
  next
    case False
    then have c: "\<not> (cur1 \<noteq> [] \<and> B1 < tot1 + ?n)" by (simp add: f1_def)
    from Cons.prems(1) have "chunk_loop B1 bs cs1 (cur1 @ [?blk]) (tot1 + ?n) = (c1, u1, t1)"
      unfolding chunk_loop_keep[OF c] .
    with False show ?thesis by (simp add: cs1'_def cur1'_def tot1'_def)
  qed
  have r2: "chunk_loop B2 bs cs2' cur2' tot2' = (c2, u2, t2)"
  proof (cases f2)
    case True
    then have c: "cur2 \<noteq> []" "B2 < tot2 + ?n" by (simp_all add: f2_def)
    from Cons.prems(2) have "chunk_loop B2 bs (cs2 @ [concat cur2]) [?blk] ?n = (c2, u2, t2)"
      unfolding chunk_loop_flush[OF c] .
    with True show ?thesis by (simp add: cs2'_def cur2'_def tot2'_def)
  next
    case False
    then have c: "\<not> (cur2 \<noteq> [] \<and> B2 < tot2 + ?n)" by (simp add: f2_def)
    from Cons.prems(2) have "chunk_loop B2 bs cs2 (cur2 @ [?blk]) (tot2 + ?n) = (c2, u2, t2)"
      unfolding chunk_loop_keep[OF c] .
    with False show ?thesis by (simp add: cs2'_def cur2'_def tot2'_def)
  qed
  have e: "(cur1' = []) \<longleftrightarrow> (cur2' = [])" by (simp add: cur1'_def cur2'_def)
  have p: "0 \<le> tot1'" using Cons.prems(5) by (simp add: tot1'_def)
  have "f2 \<Longrightarrow> length cs2 = length cs1 \<Longrightarrow> tot2 \<le> tot1 \<Longrightarrow> f1"
    using Cons.prems(3,4) unfolding f1_def f2_def by linarith
  then have q: "length cs2' < length cs1' \<or> (length cs2' = length cs1' \<and> tot2' \<le> tot1')"
    using Cons.prems(5,6) unfolding cs1'_def cs2'_def tot1'_def tot2'_def
    by (cases f1; cases f2) auto
  from Cons.IH[OF r1 r2 Cons.prems(3) e p q] show ?case .
qed


lemma chunk_text_groups: "chunk_text s B = map concat (chunk_groups s B)"
proof -
  obtain G C T where g: "group_loop B (py_split [LF, LF] (py_replace [CR, LF] [LF] s)) [] [] 0 = (G, C, T)"
    by (metis prod_cases3)
  with chunk_loop_groups[of B "py_split [LF, LF] (py_replace [CR, LF] [LF] s)" "[]" "[]" 0]
  have "chunk_loop B (py_split [LF, LF] (py_replace [CR, LF] [LF] s)) [] [] 0 = (map concat G, C, T)"
    by simp
  with g show ?thesis by (simp add: chunk_text_def chunk_groups_def)
qed

lemma chunk_groups_concat:
  "concat (chunk_groups s B) =
     map (\<lambda>b. b @ [LF, LF]) (py_split [LF, LF] (py_replace [CR, LF] [LF] s))"
proof -
  obtain G C T where g: "group_loop B (py_split [LF, LF] (py_replace [CR, LF] [LF] s)) [] [] 0 = (G, C, T)"
    by (metis prod_cases3)
  from group_loop_concat[OF g] g show ?thesis by (auto simp: chunk_groups_def)
qed

lemma chunk_groups_ok: "g \<in> set (chunk_groups s B) \<Longrightarrow> group_ok B g"
proof -
  assume a: "g \<in> set (chunk_groups s B)"
  obtain G C T where g: "group_loop B (py_split [LF, LF] (py_replace [CR, LF] [LF] s)) [] [] 0 = (G, C, T)"
    by (metis prod_cases3)
  from group_loop_inv[OF g] have inv: "T = int (length (concat C))" "\<forall>g\<in>set G. group_ok B g"
    "B < T \<longrightarrow> length C \<le> 1" by simp_all
  from a g have "g \<in> set G \<or> (C \<noteq> [] \<and> g = C)"
    by (auto simp: chunk_groups_def split: if_splits)
  then show ?thesis
  proof
    assume "g \<in> set G" with inv(2) show ?thesis by simp
  next
    assume "C \<noteq> [] \<and> g = C"
    with inv(1,3) show ?thesis by (cases C) (auto simp: group_ok_def)
  qed
qed

lemma chunk_groups_nonempty: "chunk_groups s B \<noteq> []"
proof -
  obtain G C T where g: "group_loop B (py_split [LF, LF] (py_replace [CR, LF] [LF] s)) [] [] 0 = (G, C, T)"
    by (metis prod_cases3)
  have "py_split [LF, LF] (py_replace [CR, LF] [LF] s) \<noteq> []"
    by (simp add: py_split_def split_from_nonempty)
  with group_loop_cur_nonempty[OF g] have "C \<noteq> []" by simp
  with g show ?thesis by (simp add: chunk_groups_def)
qed

lemma concat_map_concat: "concat (map concat xss) = concat (concat xss)"
  by (induction xss) simp_all

lemma chunk_text_concat:
  "concat (chunk_text s B) = py_replace [CR, LF] [LF] s @ [LF, LF]"
proof -
  have "concat (chunk_text s B) = concat (concat (chunk_groups s B))"
    by (simp add: chunk_text_groups concat_map_concat)
  also have "\<dots> = concat (map (\<lambda>b. b @ [LF, LF]) (py_split [LF, LF] (py_replace [CR, LF] [LF] s)))"
    by (simp only: chunk_groups_concat)
  also have "\<dots> = py_replace [CR, LF] [LF] s @ [LF, LF]"
    using split_from_concat[of "[LF, LF]" "[]"] by (simp add: py_split_def)
  finally show ?thesis .
qed

lemma group_suffix:
  assumes "g \<noteq> []" "set g \<subseteq> (\<lambda>b. b @ sep) ` X"
  shows "suffix sep (concat g)"
proof -
  from assms(1) have "g = butlast g @ [last g]" by simp
  then have c: "concat g = concat (butlast g) @ last g"
    by (metis concat.simps(1,2) concat_append append_Nil2)
  from assms have "last g \<in> (\<lambda>b. b @ sep) ` X" using last_in_set by blast
  then obtain b where "last g = b @ sep" by auto
  with c show ?thesis by (simp add: suffix_def) 
qed

lemma chunk_groups_blocks:
  "g \<in> set (chunk_groups s B) \<Longrightarrow>
   set g \<subseteq> (\<lambda>b. b @ [LF, LF]) ` set (py_split [LF, LF] (py_replace [CR, LF] [LF] s))"
proof -
  assume "g \<in> set (chunk_groups s B)"
  then have "set g \<subseteq> set (concat (chunk_groups s B))" by auto
  then show ?thesis by (simp add: chunk_groups_concat)
qed

lemma chunk_text_length:
  "chunk_loop B (py_split [LF, LF] (py_replace [CR, LF] [LF] s)) [] [] 0 = (c, u, t) \<Longrightarrow>
   length (chunk_text s B) = length c + (if u = [] then 0 else 1)"
  by (simp add: chunk_text_def)


section \<open>Properties of the collector\<close>

lemma scan_skip:
  "item_instant f a = None \<Longrightarrow> scan_articles f c (a # arts) rows seen = Inr r \<Longrightarrow>
   scan_articles f c arts rows seen = Inr r"
  by (auto simp: item_instant_def scan_articles.simps(2) split: option.splits if_splits pydatetime.splits)

lemma item_instant_SomeD:
  assumes "item_instant f a = Some t"
  obtains h d where "link_href a = Some (Some h)" "h \<noteq> []" "time_datetime a = Some (Some d)"
    "d \<noteq> []" "f (py_replace (ascii ''Z'') (ascii ''+00:00'') d) = Some (Aware t)"
proof (cases "link_href a")
  case None
  with assms show ?thesis by (simp add: item_instant_def)
next
  case (Some ho)
  show ?thesis
  proof (cases ho)
    case None
    with Some assms show ?thesis by (simp add: item_instant_def)
  next
    case h: (Some h)
    show ?thesis
    proof (cases "time_datetime a")
      case None
      with Some h assms show ?thesis by (simp add: item_instant_def split: if_splits)
    next
      case t: (Some dd)
      show ?thesis
      proof (cases dd)
        case None
        with Some h t assms show ?thesis by (simp add: item_instant_def split: if_splits)
      next
        case d: (Some d)
        from Some h t d assms have ne: "h \<noteq> []" "d \<noteq> []"
          by (auto simp add: item_instant_def split: if_splits)
        with Some h t d assms have
          "(case f (py_replace (ascii ''Z'') (ascii ''+00:00'') d) of
              Some (Aware t) \<Rightarrow> Some t | _ \<Rightarrow> None) = Some t"
          by (simp add: item_instant_def)
        then have "f (py_replace (ascii ''Z'') (ascii ''+00:00'') d) = Some (Aware t)"
          by (simp split: option.splits pydatetime.splits)
        with that Some h t d ne show ?thesis by simp
      qed
    qed
  qed
qed

lemma scan_some:
  assumes "item_instant f a = Some t"
  shows "\<exists>h. link_href a = Some (Some h) \<and> h \<noteq> [] \<and>
     scan_articles f c (a # arts) rows seen =
       (if h \<in> seen \<or> t < c then scan_articles f c arts rows seen
        else scan_articles f c arts (rows @ [\<lparr>r_time = t, r_text = article_text a\<rparr>]) (insert h seen))"
proof -
  from assms obtain h d where *: "link_href a = Some (Some h)" "h \<noteq> []"
    "time_datetime a = Some (Some d)" "d \<noteq> []"
    "f (py_replace (ascii ''Z'') (ascii ''+00:00'') d) = Some (Aware t)"
    by (rule item_instant_SomeD)
  then have "scan_articles f c (a # arts) rows seen =
       (if h \<in> seen \<or> t < c then scan_articles f c arts rows seen
        else scan_articles f c arts (rows @ [\<lparr>r_time = t, r_text = article_text a\<rparr>]) (insert h seen))"
    by (simp add: scan_articles.simps(2))
  with * show ?thesis by blast
qed

declare scan_articles.simps(2) [simp del]

lemma href_stable_same:
  assumes "href_stable A" "a \<in> A" "b \<in> A" "h \<noteq> []"
    "link_href a = Some (Some h)" "link_href b = Some (Some h)"
  shows "item_instant f a = item_instant f b \<and> article_text a = article_text b"
proof -
  from assms have "time_datetime a = time_datetime b" "tweet_text a = tweet_text b"
    unfolding href_stable_def by blast+
  with assms(5,6) show ?thesis
    unfolding item_instant_def article_text_def by presburger
qed

lemma href_stable_mono: "href_stable A \<Longrightarrow> B \<subseteq> A \<Longrightarrow> href_stable B"
  unfolding href_stable_def by blast

lemma kept_item:
  "item_instant f a = Some t \<Longrightarrow> link_href a = Some (Some h) \<Longrightarrow>
   row_of f a = \<lparr>r_time = t, r_text = article_text a\<rparr> \<and> href_of a = h"
  by (simp add: row_of_def href_of_def)

lemma kept_insert_no: "\<not> (\<exists>t. item_instant f a = Some t \<and> c \<le> t) \<Longrightarrow> kept f c (insert a P) = kept f c P"
  by (auto simp: kept_def)

lemma kept_insert_yes: "item_instant f a = Some t \<Longrightarrow> c \<le> t \<Longrightarrow> kept f c (insert a P) = insert a (kept f c P)"
  by (auto simp: kept_def)

lemma scan_inv:
  "scan_articles f c arts rows seen = Inr (rows', seen') \<Longrightarrow>
   set rows = row_of f ` kept f c P \<Longrightarrow> seen = href_of ` kept f c P \<Longrightarrow>
   href_stable (P \<union> set arts) \<Longrightarrow>
   set rows' = row_of f ` kept f c (P \<union> set arts) \<and> seen' = href_of ` kept f c (P \<union> set arts)"
proof (induction arts arbitrary: rows seen P)
  case Nil
  then show ?case by simp
next
  case (Cons a arts)
  have st: "href_stable (insert a P \<union> set arts)" using Cons.prems(4) by simp
  have st': "href_stable (insert a P)" by (rule href_stable_mono[OF st]) auto
  have goal_eq: "P \<union> set (a # arts) = insert a P \<union> set arts" by simp
  show ?case
  proof (cases "item_instant f a")
    case None
    from scan_skip[OF None Cons.prems(1)]
    have run: "scan_articles f c arts rows seen = Inr (rows', seen')" .
    have k: "kept f c (insert a P) = kept f c P" using None by (simp add: kept_insert_no)
    from Cons.IH[OF run, of "insert a P"] Cons.prems(2,3) st k
    show ?thesis unfolding goal_eq by simp
  next
    case (Some t)
    from scan_some[OF Some, of c arts rows seen] obtain h where
      h: "link_href a = Some (Some h)" "h \<noteq> []" and
      step: "scan_articles f c (a # arts) rows seen =
       (if h \<in> seen \<or> t < c then scan_articles f c arts rows seen
        else scan_articles f c arts (rows @ [\<lparr>r_time = t, r_text = article_text a\<rparr>]) (insert h seen))"
      by blast
    note ki = kept_item[OF Some h(1)]
    show ?thesis
    proof (cases "h \<in> seen")
      case True
      with step Cons.prems(1) have run: "scan_articles f c arts rows seen = Inr (rows', seen')" by simp
      from True Cons.prems(3) obtain b where b: "b \<in> kept f c P" "href_of b = h" by auto
      from b(1) obtain tb where tb: "b \<in> P" "item_instant f b = Some tb" "c \<le> tb"
        by (auto simp: kept_def)
      from tb(2) obtain hb where hb: "link_href b = Some (Some hb)"
        using scan_some[OF tb(2), of c "[]" "[]" "{}"] by blast
      with b(2) have "hb = h" by (simp add: href_of_def)
      with hb h(1) have same: "link_href a = link_href b" by simp
      have lb: "link_href b = Some (Some h)" using hb \<open>hb = h\<close> by simp
      from href_stable_same[OF st' _ _ h(2) h(1) lb, of f] tb(1)
      have eq: "item_instant f a = item_instant f b" "article_text a = article_text b" by simp_all
      from eq tb Some have "t = tb" by simp
      with tb(3) have yes: "kept f c (insert a P) = insert a (kept f c P)"
        using kept_insert_yes[OF Some] by simp
      have "row_of f a = row_of f b" using eq by (simp add: row_of_def)
      with b(1) have r: "row_of f ` insert a (kept f c P) = row_of f ` kept f c P" by auto
      have "href_of a = href_of b" using same by (simp add: href_of_def)
      with b(1) have s: "href_of ` insert a (kept f c P) = href_of ` kept f c P" by auto
      from Cons.IH[OF run, of "insert a P"] Cons.prems(2,3) st yes r s
      show ?thesis unfolding goal_eq by simp
    next
      case False
      show ?thesis
      proof (cases "t < c")
        case True
        with step Cons.prems(1) have run: "scan_articles f c arts rows seen = Inr (rows', seen')" by simp
        have k: "kept f c (insert a P) = kept f c P" using Some True by (simp add: kept_insert_no)
        from Cons.IH[OF run, of "insert a P"] Cons.prems(2,3) st k
        show ?thesis unfolding goal_eq by simp
      next
        case ge: False
        with False step Cons.prems(1) have run:
          "scan_articles f c arts (rows @ [\<lparr>r_time = t, r_text = article_text a\<rparr>]) (insert h seen) = Inr (rows', seen')"
          by simp
        from ge have yes: "kept f c (insert a P) = insert a (kept f c P)"
          using kept_insert_yes[OF Some, of c P] by simp
        have r: "set (rows @ [\<lparr>r_time = t, r_text = article_text a\<rparr>]) = row_of f ` kept f c (insert a P)"
          using Cons.prems(2) ki yes by simp
        have s: "insert h seen = href_of ` kept f c (insert a P)"
          using Cons.prems(3) ki yes by simp
        from Cons.IH[OF run r s st] show ?thesis unfolding goal_eq .
      qed
    qed
  qed
qed

lemma scroll_inv:
  "scroll_loop f c snaps rows seen w = (Inr (rows', seen'), w') \<Longrightarrow>
   set rows = row_of f ` kept f c P \<Longrightarrow> seen = href_of ` kept f c P \<Longrightarrow>
   href_stable (P \<union> set (concat snaps)) \<Longrightarrow>
   set rows' = row_of f ` kept f c (P \<union> set (concat snaps))"
proof (induction snaps arbitrary: rows seen w P)
  case Nil
  then show ?case by simp
next
  case (Cons arts snaps)
  from Cons.prems(1) obtain rows1 seen1 where
    s1: "scan_articles f c arts rows seen = Inr (rows1, seen1)" and
    run: "scroll_loop f c snaps rows1 seen1
            (emit [QueryArticles, MouseWheel, WaitTimeout SCROLL_WAIT_MS] w) = (Inr (rows', seen'), w')"
    by (auto split: sum.splits prod.splits)
  have st: "href_stable (P \<union> set arts)" by (rule href_stable_mono[OF Cons.prems(4)]) auto
  from scan_inv[OF s1 Cons.prems(2,3) st]
  have i: "set rows1 = row_of f ` kept f c (P \<union> set arts)" "seen1 = href_of ` kept f c (P \<union> set arts)"
    by simp_all
  have st2: "href_stable ((P \<union> set arts) \<union> set (concat snaps))"
    using Cons.prems(4) by (simp add: Un_assoc)
  from Cons.IH[OF run i st2] show ?case by (simp add: Un_assoc)
qed


lemma scrape_rows:
  assumes "fst (scrape_last_hours f utcoffset page now user hours_back w) = Inr out"
  obtains rows seen w5 where
    "scroll_loop f (now - hours_back * 3600000000) (map page [0..<MAX_SCROLLS]) [] {}
       (emit [ClickButton (ascii ''Accept''), ClickButton (ascii ''I agree''),
              ClickButton (ascii ''Allow all'')]
         (emit [Goto (ascii ''https://x.com/'' @ user)]
           (if files (emit [BrowserLaunch] w) COOKIES_FILE \<noteq> None
            then emit [ReadFile COOKIES_FILE] (emit [BrowserLaunch] w)
            else emit [BrowserLaunch] w))) = (Inr (rows, seen), w5)"
    "out = sort_key (\<lambda>r. - wall_clock utcoffset (r_time r)) (dedupe rows)"
  using assms unfolding scrape_last_hours_def Let_def
  by (auto split: prod.splits sum.splits)

lemma dict_set_keyed:
  fixes r :: row
  assumes "\<forall>(k, v)\<in>set d. k = (r_time v, r_text v)"
  shows "map snd (dict_set d (r_time r, r_text r) r) =
           (if r \<in> set (map snd d) then map snd d else map snd d @ [r]) \<and>
         (\<forall>(k, v)\<in>set (dict_set d (r_time r, r_text r) r). k = (r_time v, r_text v))"
  using assms
proof (induction d)
  case Nil
  then show ?case by simp
next
  case (Cons e d)
  obtain k v where e: "e = (k, v)" by (cases e)
  with Cons.prems have kv: "k = (r_time v, r_text v)" by simp
  show ?case
  proof (cases "k = (r_time r, r_text r)")
    case True
    with kv have "v = r" by (cases v; cases r) simp
    with True e Cons.prems show ?thesis by simp
  next
    case False
    with kv have "v \<noteq> r" by auto
    with False e Cons.prems Cons.IH show ?thesis by auto
  qed
qed

lemma foldl_dict_set:
  fixes rows :: "row list"
  shows "\<forall>(k, v)\<in>set d. k = (r_time v, r_text v) \<Longrightarrow>
   map snd (foldl (\<lambda>d r. dict_set d (r_time r, r_text r) r) d rows) = foldl add_new (map snd d) rows"
proof (induction rows arbitrary: d)
  case Nil
  then show ?case by simp
next
  case (Cons r rows)
  from dict_set_keyed[OF Cons.prems, of r]
  have a: "map snd (dict_set d (r_time r, r_text r) r) = add_new (map snd d) r"
    and b: "\<forall>(k, v)\<in>set (dict_set d (r_time r, r_text r) r). k = (r_time v, r_text v)"
    by (simp_all add: add_new_def)
  from Cons.IH[OF b] a show ?case by simp
qed

lemma remdups_snoc: "remdups (ys @ [x]) = remdups (filter (\<lambda>y. y \<noteq> x) ys) @ [x]"
  by (induction ys) auto

lemma firsts_Cons:
  "rev (remdups (rev (x # xs))) = x # rev (remdups (rev (filter (\<lambda>y. y \<noteq> x) xs)))"
  by (simp add: remdups_snoc rev_filter)

lemma foldl_add_new:
  "foldl add_new acc rows = acc @ rev (remdups (rev (filter (\<lambda>r. r \<notin> set acc) rows)))"
proof (induction rows arbitrary: acc)
  case Nil
  then show ?case by simp
next
  case (Cons r rows)
  show ?case
  proof (cases "r \<in> set acc")
    case True
    with Cons.IH[of acc] show ?thesis by (simp add: add_new_def)
  next
    case False
    have f: "filter (\<lambda>y. y \<noteq> r) (filter (\<lambda>r. r \<notin> set acc) rows) =
             filter (\<lambda>y. y \<notin> set (acc @ [r])) rows"
      by (induction rows) auto
    have "foldl add_new acc (r # rows) = foldl add_new (acc @ [r]) rows"
      using False by (simp add: add_new_def)
    also have "\<dots> = (acc @ [r]) @ rev (remdups (rev (filter (\<lambda>y. y \<notin> set (acc @ [r])) rows)))"
      by (rule Cons.IH)
    also have "\<dots> = acc @ rev (remdups (rev (r # filter (\<lambda>r. r \<notin> set acc) rows)))"
      unfolding firsts_Cons f by simp
    finally show ?thesis using False by simp
  qed
qed

lemma dedupe_firsts: "dedupe rows = rev (remdups (rev rows))"
  using foldl_dict_set[of "[]" rows] foldl_add_new[of "[]" rows]
  by (simp add: dedupe_def)

lemma scroll_loop_fst_indep:
  "fst (scroll_loop f c snaps rows seen w) = fst (scroll_loop f c snaps rows seen w')"
proof (induction snaps arbitrary: rows seen w w')
  case Nil
  then show ?case by simp
next
  case (Cons arts snaps)
  show ?case
  proof (cases "scan_articles f c arts rows seen")
    case (Inl e)
    then show ?thesis by simp
  next
    case (Inr p)
    obtain rows1 seen1 where "p = (rows1, seen1)" by (cases p)
    with Inr Cons.IH[of rows1 seen1] show ?thesis by simp
  qed
qed

lemma scroll_loop_fst_Cons:
  "scan_articles f c arts rows seen = Inr (rows1, seen1) \<Longrightarrow>
   fst (scroll_loop f c (arts # snaps) rows seen w) = fst (scroll_loop f c snaps rows1 seen1 w)"
  using scroll_loop_fst_indep[of f c snaps rows1 seen1 _ w] by simp

lemma scroll_loop_fst_fail:
  "scan_articles f c arts rows seen = Inl e \<Longrightarrow>
   fst (scroll_loop f c (arts # snaps) rows seen w) = Inl e"
  by simp

lemma scroll_loop_fst_empties:
  "fst (scroll_loop f c (replicate n []) rows seen w) = Inr (rows, seen)"
  by (induction n arbitrary: w) (simp_all add: scan_articles.simps)

lemma scrape_fst:
  "fst (scrape_last_hours f utcoffset page now user hours_back w) =
     (case fst (scroll_loop f (now - hours_back * 3600000000) (map page [0..<MAX_SCROLLS]) [] {} w) of
        Inl e \<Rightarrow> Inl e
      | Inr (rows, seen) \<Rightarrow> Inr (sort_key (\<lambda>r. - wall_clock utcoffset (r_time r)) (dedupe rows)))"
proof -
  let ?w4 = "emit [ClickButton (ascii ''Accept''), ClickButton (ascii ''I agree''),
              ClickButton (ascii ''Allow all'')]
         (emit [Goto (ascii ''https://x.com/'' @ user)]
           (if files (emit [BrowserLaunch] w) COOKIES_FILE \<noteq> None
            then emit [ReadFile COOKIES_FILE] (emit [BrowserLaunch] w)
            else emit [BrowserLaunch] w))"
  let ?run = "scroll_loop f (now - hours_back * 3600000000) (map page [0..<MAX_SCROLLS]) [] {}"
  have "fst (scrape_last_hours f utcoffset page now user hours_back w) =
     (case fst (?run ?w4) of
        Inl e \<Rightarrow> Inl e
      | Inr (rows, seen) \<Rightarrow> Inr (sort_key (\<lambda>r. - wall_clock utcoffset (r_time r)) (dedupe rows)))"
    unfolding scrape_last_hours_def Let_def
    by (cases "?run ?w4") (auto split: sum.splits)
  then show ?thesis using scroll_loop_fst_indep[of f _ _ "[]" "{}" ?w4 w] by simp
qed

lemma empty_tail:
  assumes "\<And>i. m \<le> i \<Longrightarrow> page i = []"
  shows "map page [m..<m + n] = replicate n []"
proof -
  have "map page [m..<m + n] = map (\<lambda>i. []) [m..<m + n]"
    by (rule map_cong) (auto simp: assms)
  then show ?thesis unfolding map_replicate_const length_upt by simp
qed

lemma sample_snaps:
  "map sample_page [0..<MAX_SCROLLS] = [tweet_a, promo, tweet_c] # [tweet_b, tweet_a] # replicate 78 []"
proof -
  have "[0..<2 + 78] = [0..<2] @ [2..<2 + 78]" by (rule upt_add_eq_append) simp
  then have "map sample_page [0..<MAX_SCROLLS] = map sample_page [0..<2] @ map sample_page [2..<2 + 78]"
    by (simp only: MAX_SCROLLS_def map_append[symmetric]) simp
  moreover have "map sample_page [2..<2 + 78] = replicate 78 []"
    by (rule empty_tail) (simp add: sample_page_def)
  moreover have "map sample_page [0..<2] = [[tweet_a, promo, tweet_c], [tweet_b, tweet_a]]"
    by (simp add: sample_page_def upt_rec)
  ultimately show ?thesis by simp
qed

lemma sample_scan0:
  "scan_articles sample_fromiso 1704024000000000 [tweet_a, promo, tweet_c] [] {} =
     Inr ([\<lparr>r_time = 1704103200000000, r_text = ascii ''Headline A''\<rparr>],
          {ascii ''/financialjuice/status/101''})"
  by (simp add: scan_articles.simps tweet_a_def promo_def tweet_c_def sample_fromiso_def
      article_text_def py_strip_def py_isspace_def ascii_def)

lemma sample_scan1:
  "scan_articles sample_fromiso 1704024000000000 [tweet_b, tweet_a]
     [\<lparr>r_time = 1704103200000000, r_text = ascii ''Headline A''\<rparr>]
     {ascii ''/financialjuice/status/101''} =
     Inr ([\<lparr>r_time = 1704103200000000, r_text = ascii ''Headline A''\<rparr>,
           \<lparr>r_time = 1704024000000000, r_text = ascii ''Headline B''\<rparr>],
          {ascii ''/financialjuice/status/102'', ascii ''/financialjuice/status/101''})"
  by (simp add: scan_articles.simps tweet_a_def tweet_b_def sample_fromiso_def
      article_text_def py_strip_def py_isspace_def ascii_def)

lemma sample_run:
  "fst (scrape_last_hours sample_fromiso zurich_offset sample_page 1704110400000000 USER 24 sample_world) =
     Inr [\<lparr>r_time = 1704103200000000, r_text = ascii ''Headline A''\<rparr>,
          \<lparr>r_time = 1704024000000000, r_text = ascii ''Headline B''\<rparr>]"
proof -
  have "fst (scroll_loop sample_fromiso 1704024000000000 (map sample_page [0..<MAX_SCROLLS]) [] {}
          sample_world) =
        Inr ([\<lparr>r_time = 1704103200000000, r_text = ascii ''Headline A''\<rparr>,
              \<lparr>r_time = 1704024000000000, r_text = ascii ''Headline B''\<rparr>],
             {ascii ''/financialjuice/status/102'', ascii ''/financialjuice/status/101''})"
    unfolding sample_snaps scroll_loop_fst_Cons[OF sample_scan0] scroll_loop_fst_Cons[OF sample_scan1]
    by (rule scroll_loop_fst_empties)
  then show ?thesis
    unfolding scrape_fst by (simp add: dedupe_def wall_clock_def zurich_offset_def)
qed

lemma sample_stable: "href_stable (shown sample_page)"
  unfolding shown_def sample_snaps href_stable_def
  by (simp add: tweet_a_def tweet_b_def tweet_c_def promo_def ascii_def)

text \<open>The run on the two posts of the night in which summer time ends.\<close>

lemma dst_scan:
  "scan_articles sample_fromiso 1698494400000000 [tweet_late, tweet_early] [] {} =
     Inr ([\<lparr>r_time = 1698542100000000, r_text = ascii ''Headline F''\<rparr>,
           \<lparr>r_time = 1698540300000000, r_text = ascii ''Headline E''\<rparr>],
          {ascii ''/financialjuice/status/201'', ascii ''/financialjuice/status/202''})"
  by (simp add: scan_articles.simps tweet_late_def tweet_early_def sample_fromiso_def
      article_text_def py_strip_def py_isspace_def ascii_def)

lemma dst_snaps: "map dst_page [0..<MAX_SCROLLS] = [tweet_late, tweet_early] # replicate 79 []"
proof -
  have "[0..<1 + 79] = [0..<1] @ [1..<1 + 79]" by (rule upt_add_eq_append) simp
  then have "map dst_page [0..<MAX_SCROLLS] = map dst_page [0..<1] @ map dst_page [1..<1 + 79]"
    by (simp only: MAX_SCROLLS_def map_append[symmetric]) simp
  moreover have "map dst_page [1..<1 + 79] = replicate 79 []"
    by (rule empty_tail) (simp add: dst_page_def)
  moreover have "map dst_page [0..<1] = [[tweet_late, tweet_early]]"
    by (simp add: dst_page_def)
  ultimately show ?thesis by simp
qed

lemma dst_rows:
  "fst (scroll_loop sample_fromiso 1698494400000000 (map dst_page [0..<MAX_SCROLLS]) [] {}
          sample_world) =
     Inr ([\<lparr>r_time = 1698542100000000, r_text = ascii ''Headline F''\<rparr>,
           \<lparr>r_time = 1698540300000000, r_text = ascii ''Headline E''\<rparr>],
          {ascii ''/financialjuice/status/201'', ascii ''/financialjuice/status/202''})"
  unfolding dst_snaps scroll_loop_fst_Cons[OF dst_scan]
  by (rule scroll_loop_fst_empties)

section \<open>Properties of the pipeline\<close>

lemma emit_simps [simp]:
  "getenv_key (emit es w) = getenv_key w" "files (emit es w) = files w"
  "genai_key (emit es w) = genai_key w" "io_log (emit es w) = io_log w @ es"
  by (simp_all add: emit_def)

lemma scroll_loop_world:
  "scroll_loop f c snaps rows seen w = (res, w') \<Longrightarrow>
   getenv_key w' = getenv_key w \<and> files w' = files w \<and>
   (\<exists>evs. io_log w' = io_log w @ evs \<and> filter is_generate evs = [])"
proof (induction snaps arbitrary: rows seen w)
  case Nil
  then show ?case by auto
next
  case (Cons arts snaps)
  show ?case
  proof (cases "scan_articles f c arts rows seen")
    case (Inl e)
    with Cons.prems show ?thesis by auto
  next
    case (Inr p)
    obtain rows1 seen1 where p: "p = (rows1, seen1)" by (cases p)
    with Inr Cons.prems have "scroll_loop f c snaps rows1 seen1
        (emit [QueryArticles, MouseWheel, WaitTimeout SCROLL_WAIT_MS] w) = (res, w')" by simp
    from Cons.IH[OF this] show ?thesis by auto
  qed
qed

lemma scrape_world:
  assumes "scrape_last_hours f utcoffset page now user hours_back w = (res, w')"
  shows "getenv_key w' = getenv_key w \<and>
     (\<exists>evs. io_log w' = io_log w @ evs \<and> filter is_generate evs = [] \<and>
        Goto (ascii ''https://x.com/'' @ user) \<in> set evs)"
proof -
  let ?w1 = "emit [BrowserLaunch] w"
  let ?w2 = "if files ?w1 COOKIES_FILE \<noteq> None then emit [ReadFile COOKIES_FILE] ?w1 else ?w1"
  let ?w4 = "emit [ClickButton (ascii ''Accept''), ClickButton (ascii ''I agree''),
              ClickButton (ascii ''Allow all'')]
         (emit [Goto (ascii ''https://x.com/'' @ user)] ?w2)"
  obtain r5 w5 where run: "scroll_loop f (now - hours_back * 3600000000)
      (map page [0..<MAX_SCROLLS]) [] {} ?w4 = (r5, w5)" by (cases "scroll_loop f (now - hours_back * 3600000000)
      (map page [0..<MAX_SCROLLS]) [] {} ?w4")
  from scroll_loop_world[OF run] obtain evs where
    k: "getenv_key w5 = getenv_key w" and
    l: "io_log w5 = io_log ?w4 @ evs" "filter is_generate evs = []" by auto
  have w': "w' = w5 \<or> w' = emit [BrowserClose] w5"
    using assms run unfolding scrape_last_hours_def Let_def
    by (auto split: sum.splits prod.splits)
  have "\<exists>pre. io_log ?w4 = io_log w @ pre \<and> filter is_generate pre = [] \<and>
      Goto (ascii ''https://x.com/'' @ user) \<in> set pre"
    by auto
  then obtain pre where pre: "io_log ?w4 = io_log w @ pre" "filter is_generate pre = []"
      "Goto (ascii ''https://x.com/'' @ user) \<in> set pre" by blast
  from w' show ?thesis
  proof
    assume "w' = w5"
    with k l pre have "getenv_key w' = getenv_key w" "io_log w' = io_log w @ (pre @ evs)"
      "filter is_generate (pre @ evs) = []" "Goto (ascii ''https://x.com/'' @ user) \<in> set (pre @ evs)"
      by simp_all
    then show ?thesis by blast
  next
    assume "w' = emit [BrowserClose] w5"
    with k l pre have "getenv_key w' = getenv_key w" "io_log w' = io_log w @ (pre @ evs @ [BrowserClose])"
      "filter is_generate (pre @ evs @ [BrowserClose]) = []"
      "Goto (ascii ''https://x.com/'' @ user) \<in> set (pre @ evs @ [BrowserClose])"
      by simp_all
    then show ?thesis by blast
  qed
qed

lemma require_gemini_no_key:
  "getenv_key w = None \<or> getenv_key w = Some [] \<Longrightarrow>
   require_gemini w =
     (Inl (RuntimeError (ascii ''Missing GOOGLE_API_KEY environment variable.'')), w)"
  unfolding require_gemini_def by (cases "getenv_key w") auto

lemma summarize_no_key:
  assumes "getenv_key w = None \<or> getenv_key w = Some []"
  shows "summarize_tweets_to_md gen tweets_path output_md custom_prompt model_name B w =
     (Inl (RuntimeError (ascii ''Missing GOOGLE_API_KEY environment variable.'')), w)"
  unfolding summarize_tweets_to_md_def require_gemini_no_key[OF assms] by simp

lemma py_strip_empty_iff: "py_strip s = [] \<longleftrightarrow> (\<forall>c\<in>set s. py_isspace c)"
proof
  assume "py_strip s = []"
  then have "dropWhile py_isspace (rev (dropWhile py_isspace s)) = []"
    by (simp add: py_strip_def)
  then have a: "\<forall>c\<in>set (dropWhile py_isspace s). py_isspace c"
    by (simp add: dropWhile_eq_Nil_conv)
  show "\<forall>c\<in>set s. py_isspace c"
  proof
    fix c assume "c \<in> set s"
    then have "c \<in> set (takeWhile py_isspace s) \<or> c \<in> set (dropWhile py_isspace s)"
      by (metis Un_iff set_append takeWhile_dropWhile_id)
    with a show "py_isspace c" by (auto dest: set_takeWhileD)
  qed
next
  assume "\<forall>c\<in>set s. py_isspace c"
  then have d: "dropWhile py_isspace s = []" by (simp add: dropWhile_eq_Nil_conv)
  show "py_strip s = []" unfolding py_strip_def d by simp
qed

lemma universal_newlines_space:
  "(\<forall>c\<in>set s. py_isspace c) \<Longrightarrow> (\<forall>c\<in>set (universal_newlines s). py_isspace c)"
  by (induction s rule: universal_newlines.induct) (auto simp: py_isspace_def)

lemma strip_blank_file: "py_strip content = [] \<Longrightarrow> py_strip (universal_newlines content) = []"
  using universal_newlines_space[of content] by (simp add: py_strip_empty_iff)

lemma summarize_empty:
  assumes "getenv_key w = Some key" "key \<noteq> []" "files w tweets_path = Some content"
    "py_strip content = []"
  shows "summarize_tweets_to_md gen tweets_path output_md custom_prompt model_name B w =
     (Inl (ValueError (ascii ''Tweet file is empty: '' @ tweets_path)),
      emit [ReadFile tweets_path] (w\<lparr>genai_key := Some key\<rparr>))"
proof -
  have r: "require_gemini w = (Inr (), w\<lparr>genai_key := Some key\<rparr>)"
    using assms(1,2) by (simp add: require_gemini_def)
  have l: "load_tweets tweets_path (w\<lparr>genai_key := Some key\<rparr>) =
      (Inr [], emit [ReadFile tweets_path] (w\<lparr>genai_key := Some key\<rparr>))"
    using assms(3) strip_blank_file[OF assms(4)] by (simp add: load_tweets_def)
  show ?thesis unfolding summarize_tweets_to_md_def r by (simp add: l)
qed

lemma main_scrape_fails:
  assumes "fst (scrape_last_hours fromiso utcoffset page now USER HOURS_BACK w) = Inl e"
  shows "fst (main fromiso utcoffset page now strftime gen w) = Inl e"
proof -
  obtain w1 where "scrape_last_hours fromiso utcoffset page now USER HOURS_BACK w = (Inl e, w1)"
    using assms by (cases "scrape_last_hours fromiso utcoffset page now USER HOURS_BACK w") simp
  then show ?thesis unfolding main_def by simp
qed

lemma main_no_key:
  assumes "getenv_key w = None \<or> getenv_key w = Some []"
    and "fst (scrape_last_hours fromiso utcoffset page now USER HOURS_BACK w) = Inr rows"
  shows "fst (main fromiso utcoffset page now strftime gen w) =
       Inl (RuntimeError (ascii ''Missing GOOGLE_API_KEY environment variable.'')) \<and>
     (\<exists>evs content. io_log (snd (main fromiso utcoffset page now strftime gen w)) = io_log w @ evs \<and>
        filter is_generate evs = [] \<and> Goto (ascii ''https://x.com/'' @ USER) \<in> set evs \<and>
        WriteFile OUT_TXT content \<in> set evs)"
proof -
  obtain w1 where s: "scrape_last_hours fromiso utcoffset page now USER HOURS_BACK w = (Inr rows, w1)"
    using assms(2) by (cases "scrape_last_hours fromiso utcoffset page now USER HOURS_BACK w") simp
  from scrape_world[OF s] obtain evs where
    k: "getenv_key w1 = getenv_key w" and
    l: "io_log w1 = io_log w @ evs" "filter is_generate evs = []"
       "Goto (ascii ''https://x.com/'' @ USER) \<in> set evs" by auto
  define content where
    "content = concat (map (\<lambda>r. strftime (r_time r) @ ascii '' | '' @ r_text r @ [LF, LF]) rows)"
  define w2 where "w2 = save_tweets_txt strftime rows OUT_TXT w1"
  have k2: "getenv_key w2 = getenv_key w"
    and l2: "io_log w2 = io_log w @ (evs @ [WriteFile OUT_TXT content])"
    using k l(1) by (simp_all add: w2_def content_def save_tweets_txt_def Let_def)
  from k2 assms(1) have nk: "getenv_key w2 = None \<or> getenv_key w2 = Some []" by simp
  have m: "main fromiso utcoffset page now strftime gen w =
      (Inl (RuntimeError (ascii ''Missing GOOGLE_API_KEY environment variable.'')), w2)"
  proof -
    have "summarize_tweets_to_md gen OUT_TXT (ascii ''summary.md'') CUSTOM_PROMPT MODEL_NAME 15000
        (save_tweets_txt strftime rows OUT_TXT w1) =
      (Inl (RuntimeError (ascii ''Missing GOOGLE_API_KEY environment variable.'')), w2)"
      using summarize_no_key[OF nk] unfolding w2_def .
    then show ?thesis unfolding main_def s by simp
  qed
  have e: "filter is_generate (evs @ [WriteFile OUT_TXT content]) = []"
    "Goto (ascii ''https://x.com/'' @ USER) \<in> set (evs @ [WriteFile OUT_TXT content])"
    "WriteFile OUT_TXT content \<in> set (evs @ [WriteFile OUT_TXT content])"
    using l by simp_all
  have "\<exists>evs content. io_log w2 = io_log w @ evs \<and>
        filter is_generate evs = [] \<and> Goto (ascii ''https://x.com/'' @ USER) \<in> set evs \<and>
        WriteFile OUT_TXT content \<in> set evs"
    using l2 e by blast
  then show ?thesis unfolding m by simp
qed

text \<open>
  With a credential and a corpus that is not empty the summarization succeeds, after one
  request to the generation service for each chunk and one for the synthesis.
\<close>

lemma summarize_loop_requests:
  "length (filter is_generate (io_log (snd (summarize_loop gen p n i chs outs w)))) =
     length (filter is_generate (io_log w)) + length chs"
  by (induction chs arbitrary: i outs w) simp_all

lemma summarize_success_requests:
  assumes "getenv_key w = Some key" "key \<noteq> []" "files w tweets_path = Some content"
    "py_strip (universal_newlines content) \<noteq> []"
  shows "\<exists>r. fst (summarize_tweets_to_md gen tweets_path output_md custom_prompt model_name B w) = Inr r" and
    "length (filter is_generate
       (io_log (snd (summarize_tweets_to_md gen tweets_path output_md custom_prompt model_name B w)))) =
     length (filter is_generate (io_log w)) + length (chunk_text (py_strip (universal_newlines content)) B) + 1"
proof -
  have r: "require_gemini w = (Inr (), w\<lparr>genai_key := Some key\<rparr>)"
    using assms(1,2) by (simp add: require_gemini_def)
  have l: "load_tweets tweets_path (w\<lparr>genai_key := Some key\<rparr>) =
      (Inr (py_strip (universal_newlines content)), emit [ReadFile tweets_path] (w\<lparr>genai_key := Some key\<rparr>))"
    using assms(3) by (simp add: load_tweets_def)
  let ?w2 = "emit [ReadFile tweets_path] (w\<lparr>genai_key := Some key\<rparr>)"
  let ?chunks = "chunk_text (py_strip (universal_newlines content)) B"
  obtain per w3 where s: "summarize_chunks gen ?chunks custom_prompt model_name ?w2 = (per, w3)"
    by (cases "summarize_chunks gen ?chunks custom_prompt model_name ?w2")
  have n3: "length (filter is_generate (io_log w3)) =
      length (filter is_generate (io_log w)) + length ?chunks"
    using summarize_loop_requests[of gen custom_prompt "length ?chunks" 1 ?chunks "[]" ?w2] s
    by (simp add: summarize_chunks_def)
  obtain md w4 where f: "final_synthesis gen per custom_prompt model_name w3 = (md, w4)"
    by (cases "final_synthesis gen per custom_prompt model_name w3")
  have n4: "length (filter is_generate (io_log w4)) = length (filter is_generate (io_log w3)) + 1"
    using f by (auto simp: final_synthesis_def Let_def)
  have res: "summarize_tweets_to_md gen tweets_path output_md custom_prompt model_name B w =
      (Inr (output_md, length (py_strip (universal_newlines content)), length ?chunks),
       emit [WriteFile output_md md] (w4\<lparr>files := (files w4)(output_md \<mapsto> md)\<rparr>))"
    unfolding summarize_tweets_to_md_def r using assms(4) by (simp add: l s f)
  show "\<exists>r. fst (summarize_tweets_to_md gen tweets_path output_md custom_prompt model_name B w) = Inr r"
    unfolding res by simp
  show "length (filter is_generate
       (io_log (snd (summarize_tweets_to_md gen tweets_path output_md custom_prompt model_name B w)))) =
     length (filter is_generate (io_log w)) + length (chunk_text (py_strip (universal_newlines content)) B) + 1"
    unfolding res using n3 n4 by simp
qed

section \<open>Claims about the chunker\<close>

text \<open>
  Claim C1, as amended.  Joining all chunks of \<^verbatim>\<open>chunk_text(s, B)\<close> in order gives, for
  every text and every budget, the text with each CR LF replaced by LF, followed by one
  additional blank-line separator: nothing of the normalised text is lost or repeated, but
  the input itself is not reproduced exactly.
\<close>

theorem chunk_text_concat_normalized: "concat (chunk_text s B) = py_replace [CR, LF] [LF] s @ [LF, LF]"
  by (rule chunk_text_concat)

text \<open>
  The claim as stated fails already on the one-character text \<^verbatim>\<open>"a"\<close> with the default
  budget: the only chunk is \<^verbatim>\<open>"a\n\n"\<close>.
\<close>

theorem chunk_text_roundtrip_counterexample: "(1::int) \<le> 15000 \<and> concat (chunk_text (ascii ''a'') 15000) \<noteq> ascii ''a''"
  by (simp add: chunk_text_def py_split_def ascii_def)

text \<open>
  Claim C4, as amended.  The chunks are the joined groups of \<open>chunk_groups\<close>, and the
  groups, read in order, are exactly the blocks of the normalised text, each with its
  separator.  Every group whose joined length in characters (what \<^verbatim>\<open>len\<close> counts)
  exceeds the budget consists of exactly one block, so every chunk of two or more blocks has
  at most \<open>B\<close> characters; and a block that alone is longer than \<open>B\<close> is emitted as a
  chunk of its own, unsplit.
\<close>

theorem chunk_text_oversized_single_block:
  "chunk_text s B = map concat (chunk_groups s B) \<and>
   concat (chunk_groups s B) =
     map (\<lambda>b. b @ [LF, LF]) (py_split [LF, LF] (py_replace [CR, LF] [LF] s)) \<and>
   (\<forall>g\<in>set (chunk_groups s B). g \<noteq> [] \<and> (B < int (length (concat g)) \<longrightarrow> length g = 1)) \<and>
   (\<forall>b\<in>set (py_split [LF, LF] (py_replace [CR, LF] [LF] s)).
      B < int (length (b @ [LF, LF])) \<longrightarrow> [b @ [LF, LF]] \<in> set (chunk_groups s B))"
proof (intro conjI ballI impI)
  show "chunk_text s B = map concat (chunk_groups s B)" by (rule chunk_text_groups)
  show "concat (chunk_groups s B) =
     map (\<lambda>b. b @ [LF, LF]) (py_split [LF, LF] (py_replace [CR, LF] [LF] s))"
    by (rule chunk_groups_concat)
next
  fix g assume "g \<in> set (chunk_groups s B)"
  then show "g \<noteq> []" using chunk_groups_ok by (auto simp: group_ok_def)
next
  fix g assume "g \<in> set (chunk_groups s B)" "B < int (length (concat g))"
  then show "length g = 1" using chunk_groups_ok by (auto simp: group_ok_def)
next
  fix b assume b: "b \<in> set (py_split [LF, LF] (py_replace [CR, LF] [LF] s))"
    and big: "B < int (length (b @ [LF, LF]))"
  from b have "b @ [LF, LF] \<in> set (concat (chunk_groups s B))"
    by (simp add: chunk_groups_concat)
  then obtain g where g: "g \<in> set (chunk_groups s B)" "b @ [LF, LF] \<in> set g" by auto
  from g(2) have "length (b @ [LF, LF]) \<le> length (concat g)"
    by (induction g) auto
  with big have "B < int (length (concat g))" by linarith
  with chunk_groups_ok[OF g(1)] have "length g = 1" by (simp add: group_ok_def)
  with g(2) have "g = [b @ [LF, LF]]" by (cases g) auto
  with g(1) show "[b @ [LF, LF]] \<in> set (chunk_groups s B)" by simp
qed

theorem chunk_text_oversized_single_block_witness:
  "chunk_groups (ascii ''aaaaaaaa'' @ [LF, LF] @ ascii ''b'' @ [LF, LF] @ ascii ''c'') 8 =
     [[ascii ''aaaaaaaa'' @ [LF, LF]], [ascii ''b'' @ [LF, LF], ascii ''c'' @ [LF, LF]]] \<and>
   (8::int) < int (length (concat [ascii ''aaaaaaaa'' @ [LF, LF]])) \<and>
   length [ascii ''aaaaaaaa'' @ [LF, LF]] = 1 \<and>
   int (length (concat [ascii ''b'' @ [LF, LF], ascii ''c'' @ [LF, LF]])) \<le> 8 \<and>
   [ascii ''aaaaaaaa'' @ [LF, LF]]
     \<in> set (chunk_groups (ascii ''aaaaaaaa'' @ [LF, LF] @ ascii ''b'' @ [LF, LF] @ ascii ''c'') 8)"
  using chunk_text_oversized_single_block
    [of "ascii ''aaaaaaaa'' @ [LF, LF] @ ascii ''b'' @ [LF, LF] @ ascii ''c''" 8]
  by (simp add: chunk_groups_def py_split_def ascii_def Let_def)

text \<open>
  The claim as stated measures the chunk in bytes.  The text \<^verbatim>\<open>"\u00e9\n\n\u00e9"\<close> with
  budget 6 gives one chunk of two blocks and 6 characters, whose UTF-8 encoding has 8 bytes.
\<close>

theorem chunk_text_byte_budget_counterexample:
  "chunk_text [233, LF, LF, 233] 6 = [[233, LF, LF, 233, LF, LF]] \<and>
   chunk_groups [233, LF, LF, 233] 6 = [[[233, LF, LF], [233, LF, LF]]] \<and>
   6 < int (byte_length [233, LF, LF, 233, LF, LF])"
  by (simp add: chunk_text_def chunk_groups_def py_split_def byte_length_def utf8_len_def Let_def)

text \<open>
  Claim C8.  For every text and all budgets \<open>B1 < B2\<close>, the chunker produces at least as
  many chunks with budget \<open>B1\<close> as with budget \<open>B2\<close>.
\<close>

theorem chunk_text_count_antimono: "B1 < B2 \<Longrightarrow> length (chunk_text s B2) \<le> length (chunk_text s B1)"
proof -
  assume lt: "B1 < B2"
  let ?bs = "py_split [LF, LF] (py_replace [CR, LF] [LF] s)"
  obtain c1 u1 t1 where r1: "chunk_loop B1 ?bs [] [] 0 = (c1, u1, t1)" by (metis prod_cases3)
  obtain c2 u2 t2 where r2: "chunk_loop B2 ?bs [] [] 0 = (c2, u2, t2)" by (metis prod_cases3)
  from chunk_loop_mono[OF r1 r2] lt
  have "(u1 = [] \<longleftrightarrow> u2 = []) \<and> (length c2 < length c1 \<or> (length c2 = length c1 \<and> t2 \<le> t1))"
    by simp
  then show ?thesis
    unfolding chunk_text_length[OF r1] chunk_text_length[OF r2] by auto
qed

theorem chunk_text_count_antimono_witness:
  "(4::int) < 100 \<and>
   length (chunk_text (ascii ''a'' @ [LF, LF] @ ascii ''b'') 100) = 1 \<and>
   length (chunk_text (ascii ''a'' @ [LF, LF] @ ascii ''b'') 4) = 2 \<and>
   length (chunk_text (ascii ''a'' @ [LF, LF] @ ascii ''b'') 100)
     \<le> length (chunk_text (ascii ''a'' @ [LF, LF] @ ascii ''b'') 4)"
  using chunk_text_count_antimono [of 4 100 "ascii ''a'' @ [LF, LF] @ ascii ''b''"]
  by (simp add: chunk_text_def py_split_def ascii_def Let_def)

text \<open>
  Claim C10.  For every text and budget, \<^verbatim>\<open>chunk_text\<close> returns a non-empty list, every
  chunk ends with the separator \<^verbatim>\<open>"\n\n"\<close>, the empty text gives the single chunk
  \<^verbatim>\<open>"\n\n"\<close>, and the chunks spell the CRLF-normalised text (followed by the separator),
  not the original one.
\<close>

theorem chunk_text_nonempty_terminated:
  "chunk_text s B \<noteq> [] \<and>
   (\<forall>c\<in>set (chunk_text s B). suffix [LF, LF] c) \<and>
   chunk_text [] B = [[LF, LF]] \<and>
   concat (chunk_text s B) = py_replace [CR, LF] [LF] s @ [LF, LF]"
proof (intro conjI ballI)
  show "chunk_text s B \<noteq> []" by (simp add: chunk_text_groups chunk_groups_nonempty)
  show "chunk_text [] B = [[LF, LF]]" by (simp add: chunk_text_def py_split_def)
  show "concat (chunk_text s B) = py_replace [CR, LF] [LF] s @ [LF, LF]"
    by (rule chunk_text_concat)
next
  fix c assume "c \<in> set (chunk_text s B)"
  then obtain g where g: "g \<in> set (chunk_groups s B)" "c = concat g"
    by (auto simp: chunk_text_groups)
  from chunk_groups_ok[OF g(1)] have "g \<noteq> []" by (simp add: group_ok_def)
  from group_suffix[OF this chunk_groups_blocks[OF g(1)]] g(2)
  show "suffix [LF, LF] c" by simp
qed

theorem chunk_text_nonempty_terminated_witness:
  "chunk_text (ascii ''a'' @ [CR, LF] @ ascii ''b'' @ [LF, LF] @ ascii ''c'') 4 =
     [ascii ''a'' @ [LF] @ ascii ''b'' @ [LF, LF], ascii ''c'' @ [LF, LF]] \<and>
   suffix [LF, LF] (ascii ''a'' @ [LF] @ ascii ''b'' @ [LF, LF]) \<and>
   suffix [LF, LF] (ascii ''c'' @ [LF, LF])"
  using chunk_text_nonempty_terminated
    [of "ascii ''a'' @ [CR, LF] @ ascii ''b'' @ [LF, LF] @ ascii ''c''" 4]
  by (simp add: chunk_text_def py_split_def ascii_def Let_def)

section \<open>Claims about the collector\<close>

text \<open>
  Claim C2.  Whenever a collection run returns, and the status link identifies the item
  (an item that re-appears is rendered with the same timestamp and text), the records of
  the output are exactly the records of the shown items whose timestamp is at or after
  \<open>cutoff = now - hours_back\<close>.  The right-hand side depends only on the set of
  items shown, not on the scroll order or on repetitions, and an item dated exactly at the
  cutoff is retained.
\<close>

theorem collector_cutoff_exact:
  assumes "fst (scrape_last_hours fromiso utcoffset page now user hours_back w) = Inr out"
    and "href_stable (shown page)"
  shows "set out =
    {\<lparr>r_time = t, r_text = article_text a\<rparr> | a t.
       a \<in> shown page \<and> item_instant fromiso a = Some t \<and> now - hours_back * 3600000000 \<le> t}"
proof -
  let ?c = "now - hours_back * 3600000000"
  from assms(1) obtain rows seen w4 w5 where
    run: "scroll_loop fromiso ?c (map page [0..<MAX_SCROLLS]) [] {} w4 = (Inr (rows, seen), w5)"
    and out: "out = sort_key (\<lambda>r. - wall_clock utcoffset (r_time r)) (dedupe rows)"
    by (rule scrape_rows)
  have "set rows = row_of fromiso ` kept fromiso ?c ({} \<union> set (concat (map page [0..<MAX_SCROLLS])))"
    by (rule scroll_inv[OF run]) (use assms(2) in \<open>simp_all add: kept_def shown_def\<close>)
  then have "set out = row_of fromiso ` kept fromiso ?c (shown page)"
    by (simp add: out dedupe_firsts shown_def)
  also have "\<dots> = {\<lparr>r_time = t, r_text = article_text a\<rparr> | a t.
       a \<in> shown page \<and> item_instant fromiso a = Some t \<and> ?c \<le> t}"
  proof (intro set_eqI iffI)
    fix r assume "r \<in> row_of fromiso ` kept fromiso ?c (shown page)"
    then obtain a t where "a \<in> shown page" "item_instant fromiso a = Some t" "?c \<le> t"
      "r = row_of fromiso a" by (auto simp: kept_def)
    then show "r \<in> {\<lparr>r_time = t, r_text = article_text a\<rparr> | a t.
       a \<in> shown page \<and> item_instant fromiso a = Some t \<and> ?c \<le> t}"
      by (auto simp: row_of_def)
  next
    fix r assume "r \<in> {\<lparr>r_time = t, r_text = article_text a\<rparr> | a t.
       a \<in> shown page \<and> item_instant fromiso a = Some t \<and> ?c \<le> t}"
    then obtain a t where a: "a \<in> shown page" "item_instant fromiso a = Some t" "?c \<le> t"
      "r = \<lparr>r_time = t, r_text = article_text a\<rparr>" by blast
    then have "a \<in> kept fromiso ?c (shown page)" "r = row_of fromiso a"
      by (auto simp: kept_def row_of_def)
    then show "r \<in> row_of fromiso ` kept fromiso ?c (shown page)" by blast
  qed
  finally show ?thesis .
qed

theorem collector_cutoff_exact_witness:
  "href_stable (shown sample_page) \<and>
   fst (scrape_last_hours sample_fromiso zurich_offset sample_page 1704110400000000 USER 24 sample_world) =
     Inr [\<lparr>r_time = 1704103200000000, r_text = ascii ''Headline A''\<rparr>,
          \<lparr>r_time = 1704024000000000, r_text = ascii ''Headline B''\<rparr>] \<and>
   set [\<lparr>r_time = 1704103200000000, r_text = ascii ''Headline A''\<rparr>,
        \<lparr>r_time = 1704024000000000, r_text = ascii ''Headline B''\<rparr>] =
     {\<lparr>r_time = t, r_text = article_text a\<rparr> | a t.
        a \<in> shown sample_page \<and> item_instant sample_fromiso a = Some t \<and>
        1704110400000000 - 24 * 3600000000 \<le> t}"
  using collector_cutoff_exact [OF sample_run sample_stable] sample_run sample_stable
  by (intro conjI)

text \<open>
  Claim C6.  The claim says that an item whose timestamp attribute is present but
  malformed is skipped and the run continues.  In the program the parse error of line 118
  is not caught: on a snapshot with such an item between two good ones the whole run ends
  with \<^verbatim>\<open>ValueError\<close> and returns no rows.
\<close>

theorem malformed_timestamp_aborts_run:
  "fst (scrape_last_hours sample_fromiso zurich_offset bad_page 1704110400000000 USER 24 sample_world) =
     Inl (ValueError (ascii ''Invalid isoformat string''))"
proof -
  have "scan_articles sample_fromiso 1704024000000000 [tweet_a, tweet_bad, tweet_b] [] {} =
      Inl (ValueError (ascii ''Invalid isoformat string''))"
    by (simp add: scan_articles.simps tweet_a_def tweet_bad_def sample_fromiso_def
        article_text_def py_strip_def py_isspace_def ascii_def)
  then have "fst (scroll_loop sample_fromiso (1704110400000000 - 24 * 3600000000)
      (map bad_page [0..<MAX_SCROLLS]) [] {} sample_world) =
      Inl (ValueError (ascii ''Invalid isoformat string''))"
    by (simp add: MAX_SCROLLS_def bad_page_def upt_rec[of 0])
  then show ?thesis unfolding scrape_fst by simp
qed

text \<open>
  Claim C7.  The final deduplication (line 134) keys the rows by time and text, which is
  the whole record: it keeps the first occurrence of every record, in the order of the
  first occurrences, and the set of records after the step equals the set of records
  accumulated in \<open>rows\<close>.
\<close>

theorem dedupe_keeps_first_occurrences:
  "dedupe rows = rev (remdups (rev rows)) \<and> set (dedupe rows) = set rows \<and> distinct (dedupe rows)"
  by (simp add: dedupe_firsts)

text \<open>
  Claim C9.  The claim, like the comment of line 133, asks for the rows newest first.  The
  sort of line 135 compares datetimes that share one zone, which Python orders by their
  local wall-clock reading.  In the hour that is repeated when summer time ends the two
  orders differ: for a post at 00:45 UTC (02:45 local) and one at 01:15 UTC (02:15 local)
  on 2023-10-29 the run returns the older post first.
\<close>

theorem dst_hour_sorted_oldest_first:
  "fst (scrape_last_hours sample_fromiso zurich_offset dst_page 1698580800000000 USER 24
          sample_world) =
     Inr [\<lparr>r_time = 1698540300000000, r_text = ascii ''Headline E''\<rparr>,
          \<lparr>r_time = 1698542100000000, r_text = ascii ''Headline F''\<rparr>]"
proof -
  have "fst (scroll_loop sample_fromiso (1698580800000000 - 24 * 3600000000)
          (map dst_page [0..<MAX_SCROLLS]) [] {} sample_world) =
     Inr ([\<lparr>r_time = 1698542100000000, r_text = ascii ''Headline F''\<rparr>,
           \<lparr>r_time = 1698540300000000, r_text = ascii ''Headline E''\<rparr>],
          {ascii ''/financialjuice/status/201'', ascii ''/financialjuice/status/202''})"
    using dst_rows by simp
  then show ?thesis
    unfolding scrape_fst by (simp add: dedupe_def wall_clock_def zurich_offset_def)
qed

text \<open>
  What the sort does give: every adjacent pair of the output is in descending order of the
  wall-clock readings, and so of the instants whenever the zone has one offset at all the
  instants of the rows.
\<close>

lemma corpus_sorted_by_wall_clock:
  assumes "fst (scrape_last_hours fromiso utcoffset page now user hours_back w) = Inr out"
  shows "\<forall>i. Suc i < length out \<longrightarrow>
           wall_clock utcoffset (r_time (out ! Suc i)) \<le> wall_clock utcoffset (r_time (out ! i))"
proof (intro allI impI)
  fix i assume i: "Suc i < length out"
  from assms obtain rows where
    out: "out = sort_key (\<lambda>r. - wall_clock utcoffset (r_time r)) (dedupe rows)"
    by (rule scrape_rows)
  have "sorted (map (\<lambda>r. - wall_clock utcoffset (r_time r)) out)"
    unfolding out by (rule sorted_sort_key)
  from sorted_nth_mono[OF this, of i "Suc i"] i
  show "wall_clock utcoffset (r_time (out ! Suc i)) \<le> wall_clock utcoffset (r_time (out ! i))"
    by simp
qed

lemma corpus_sorted_newest_first_fixed_offset:
  assumes "fst (scrape_last_hours fromiso utcoffset page now user hours_back w) = Inr out"
    and "\<forall>r\<in>set out. utcoffset (r_time r) = off"
  shows "\<forall>i. Suc i < length out \<longrightarrow> r_time (out ! Suc i) \<le> r_time (out ! i)"
proof (intro allI impI)
  fix i assume i: "Suc i < length out"
  then have "out ! i \<in> set out" "out ! Suc i \<in> set out" by simp_all
  with assms(2) have "utcoffset (r_time (out ! i)) = off" "utcoffset (r_time (out ! Suc i)) = off"
    by blast+
  moreover from corpus_sorted_by_wall_clock[OF assms(1)] i
  have "wall_clock utcoffset (r_time (out ! Suc i)) \<le> wall_clock utcoffset (r_time (out ! i))"
    by blast
  ultimately show "r_time (out ! Suc i) \<le> r_time (out ! i)" by (simp add: wall_clock_def)
qed

section \<open>Claims about the pipeline\<close>

text \<open>
  Claim C3, as amended.  When \<^verbatim>\<open>GOOGLE_API_KEY\<close> is unset or empty,
  \<^verbatim>\<open>summarize_tweets_to_md\<close> raises the configuration error at once and leaves the world
  as it was: no file is read, no request is sent to the generation service, nothing is
  written.  In \<^verbatim>\<open>main\<close> the check comes after the collection: if the collection fails,
  its error is the result; if it returns, the result is the configuration error, raised
  after the collector has navigated to the timeline and the corpus file has been written,
  and before any request to the generation service.
\<close>

theorem missing_credential_detected_before_generation:
  assumes "getenv_key w = None \<or> getenv_key w = Some []"
  shows "summarize_tweets_to_md gen tweets_path output_md custom_prompt model_name B w =
       (Inl (RuntimeError (ascii ''Missing GOOGLE_API_KEY environment variable.'')), w) \<and>
     (\<forall>e. fst (scrape_last_hours fromiso utcoffset page now USER HOURS_BACK w) = Inl e \<longrightarrow>
        fst (main fromiso utcoffset page now strftime gen w) = Inl e) \<and>
     (\<forall>rows. fst (scrape_last_hours fromiso utcoffset page now USER HOURS_BACK w) = Inr rows \<longrightarrow>
        fst (main fromiso utcoffset page now strftime gen w) =
          Inl (RuntimeError (ascii ''Missing GOOGLE_API_KEY environment variable.'')) \<and>
        (\<exists>evs content. io_log (snd (main fromiso utcoffset page now strftime gen w)) = io_log w @ evs \<and>
           filter is_generate evs = [] \<and> Goto (ascii ''https://x.com/'' @ USER) \<in> set evs \<and>
           WriteFile OUT_TXT content \<in> set evs))"
proof (intro conjI allI impI)
  show "summarize_tweets_to_md gen tweets_path output_md custom_prompt model_name B w =
       (Inl (RuntimeError (ascii ''Missing GOOGLE_API_KEY environment variable.'')), w)"
    by (rule summarize_no_key[OF assms])
next
  fix e assume "fst (scrape_last_hours fromiso utcoffset page now USER HOURS_BACK w) = Inl e"
  then show "fst (main fromiso utcoffset page now strftime gen w) = Inl e" by (rule main_scrape_fails)
next
  fix rows assume r: "fst (scrape_last_hours fromiso utcoffset page now USER HOURS_BACK w) = Inr rows"
  from main_no_key[OF assms r]
  show "fst (main fromiso utcoffset page now strftime gen w) =
      Inl (RuntimeError (ascii ''Missing GOOGLE_API_KEY environment variable.''))"
    and "\<exists>evs content. io_log (snd (main fromiso utcoffset page now strftime gen w)) = io_log w @ evs \<and>
           filter is_generate evs = [] \<and> Goto (ascii ''https://x.com/'' @ USER) \<in> set evs \<and>
           WriteFile OUT_TXT content \<in> set evs"
    by blast+
qed

theorem missing_credential_detected_before_generation_witness:
  "getenv_key sample_world = None \<and>
   fst (scrape_last_hours sample_fromiso zurich_offset sample_page 1704110400000000 USER HOURS_BACK sample_world) =
     Inr [\<lparr>r_time = 1704103200000000, r_text = ascii ''Headline A''\<rparr>,
          \<lparr>r_time = 1704024000000000, r_text = ascii ''Headline B''\<rparr>] \<and>
   fst (main sample_fromiso zurich_offset sample_page 1704110400000000 sample_strftime (\<lambda>ps. None) sample_world) =
     Inl (RuntimeError (ascii ''Missing GOOGLE_API_KEY environment variable.'')) \<and>
   summarize_tweets_to_md (\<lambda>ps. None) OUT_TXT (ascii ''summary.md'') CUSTOM_PROMPT MODEL_NAME 15000
       sample_world =
     (Inl (RuntimeError (ascii ''Missing GOOGLE_API_KEY environment variable.'')), sample_world)"
proof -
  have k: "getenv_key sample_world = None \<or> getenv_key sample_world = Some []"
    by (simp add: sample_world_def)
  have r: "fst (scrape_last_hours sample_fromiso zurich_offset sample_page 1704110400000000 USER HOURS_BACK
      sample_world) =
     Inr [\<lparr>r_time = 1704103200000000, r_text = ascii ''Headline A''\<rparr>,
          \<lparr>r_time = 1704024000000000, r_text = ascii ''Headline B''\<rparr>]"
    using sample_run by (simp add: HOURS_BACK_def)
  from missing_credential_detected_before_generation[OF k, of "\<lambda>ps. None" OUT_TXT
      "ascii ''summary.md''" CUSTOM_PROMPT MODEL_NAME 15000 sample_fromiso zurich_offset sample_page
      1704110400000000 sample_strftime] r
  show ?thesis by (simp add: sample_world_def)
qed

text \<open>
  The claim as stated puts the error before any navigation request.  On the sample
  timeline without a credential, \<^verbatim>\<open>main\<close> ends with the configuration error, and by then
  the request to open the timeline has been sent.
\<close>

theorem missing_credential_after_navigation_counterexample:
  "getenv_key sample_world = None \<and> io_log sample_world = [] \<and>
   fst (main sample_fromiso zurich_offset sample_page 1704110400000000 sample_strftime (\<lambda>ps. None) sample_world) =
     Inl (RuntimeError (ascii ''Missing GOOGLE_API_KEY environment variable.'')) \<and>
   Goto (ascii ''https://x.com/financialjuice'')
     \<in> set (io_log (snd (main sample_fromiso zurich_offset sample_page 1704110400000000 sample_strftime
                             (\<lambda>ps. None) sample_world)))"
proof -
  have k: "getenv_key sample_world = None \<or> getenv_key sample_world = Some []"
    by (simp add: sample_world_def)
  have r: "fst (scrape_last_hours sample_fromiso zurich_offset sample_page 1704110400000000 USER HOURS_BACK
      sample_world) =
     Inr [\<lparr>r_time = 1704103200000000, r_text = ascii ''Headline A''\<rparr>,
          \<lparr>r_time = 1704024000000000, r_text = ascii ''Headline B''\<rparr>]"
    using sample_run by (simp add: HOURS_BACK_def)
  have u: "ascii ''https://x.com/'' @ USER = ascii ''https://x.com/financialjuice''"
    by (simp add: USER_def ascii_def)
  from main_no_key[OF k r, of sample_strftime "\<lambda>ps. None"]
  show ?thesis unfolding u by (auto simp: sample_world_def)
qed

text \<open>
  Claim C5.  When the corpus file holds nothing but white space as summarization begins
  (the credential being present: its absence is the configuration error of claim C3, which
  comes before every other error), \<^verbatim>\<open>summarize_tweets_to_md\<close> raises the error
  \<^verbatim>\<open>"Tweet file is empty: <path>"\<close>, which names the path; up to then it has configured
  the client and read the corpus file, and nothing else: no request to the generation
  service, no file written.
\<close>

theorem empty_corpus_reported_before_generation:
  assumes "getenv_key w = Some key" "key \<noteq> []" "files w tweets_path = Some content"
    "py_strip content = []"
  shows "fst (summarize_tweets_to_md gen tweets_path output_md custom_prompt model_name B w) =
       Inl (ValueError (ascii ''Tweet file is empty: '' @ tweets_path)) \<and>
     io_log (snd (summarize_tweets_to_md gen tweets_path output_md custom_prompt model_name B w)) =
       io_log w @ [ReadFile tweets_path] \<and>
     files (snd (summarize_tweets_to_md gen tweets_path output_md custom_prompt model_name B w)) =
       files w"
  unfolding summarize_empty[OF assms] by simp

theorem empty_corpus_reported_before_generation_witness:
  "getenv_key blank_corpus_world = Some (ascii ''k'') \<and> ascii ''k'' \<noteq> [] \<and>
   files blank_corpus_world OUT_TXT = Some [32, LF] \<and> py_strip [32, LF] = [] \<and>
   fst (summarize_tweets_to_md (\<lambda>ps. None) OUT_TXT (ascii ''summary.md'') CUSTOM_PROMPT MODEL_NAME
          15000 blank_corpus_world) =
     Inl (ValueError (ascii ''Tweet file is empty: '' @ OUT_TXT)) \<and>
   io_log (snd (summarize_tweets_to_md (\<lambda>ps. None) OUT_TXT (ascii ''summary.md'') CUSTOM_PROMPT
                  MODEL_NAME 15000 blank_corpus_world)) = [ReadFile OUT_TXT]"
proof -
  have a: "getenv_key blank_corpus_world = Some (ascii ''k'')" "ascii ''k'' \<noteq> []"
    "files blank_corpus_world OUT_TXT = Some [32, LF]" "py_strip [32, LF] = []"
    by (simp_all add: blank_corpus_world_def ascii_def py_strip_def py_isspace_def)
  from empty_corpus_reported_before_generation[OF a, of "\<lambda>ps. None" "ascii ''summary.md''"
      CUSTOM_PROMPT MODEL_NAME 15000] a
  show ?thesis by (simp add: blank_corpus_world_def)
qed

end
